theory Spec2Isabelle
  imports Main
begin

section \<open>Python values used by the crawler\<close>

text \<open>
  The crawler (\<^verbatim>\<open>image_crawler.py\<close>) is a Python class driving a Selenium browser.
  Strings are modelled as \<^typ>\<open>string\<close>, a value that may be \<^verbatim>\<open>None\<close> as an
  option, and every exception that the source can meet as a value of \<open>exn\<close>.
  \<^verbatim>\<open>except Exception\<close> catches every exception of the model but
  \<^verbatim>\<open>KeyboardInterrupt\<close>, which derives from \<^verbatim>\<open>BaseException\<close> only.
\<close>

datatype exn =
    TimeoutException
  | WebDriverException
  | StaleElementReferenceException
  | ValueError
  | AttributeError
  | TypeError
  | InitError
  | KeyboardInterrupt

fun is_Exception :: "exn \<Rightarrow> bool" where
  "is_Exception KeyboardInterrupt = False"
| "is_Exception _ = True"

text \<open>\<^verbatim>\<open>s.startswith(p)\<close>\<close>

definition startswith :: "string \<Rightarrow> string \<Rightarrow> bool" where
  "startswith p s = (take (length p) s = p)"

text \<open>\<^verbatim>\<open>sub in s\<close> for strings\<close>

fun contains :: "string \<Rightarrow> string \<Rightarrow> bool" where
  "contains sub [] = (sub = [])"
| "contains sub (c # cs) = (startswith sub (c # cs) \<or> contains sub cs)"

text \<open>\<^verbatim>\<open>s.lower()\<close>, on the ASCII letters\<close>

definition lower_char :: "char \<Rightarrow> char" where
  "lower_char c =
     (if 65 \<le> (of_char c :: nat) \<and> (of_char c :: nat) \<le> 90
      then char_of ((of_char c :: nat) + 32) else c)"

definition lower :: "string \<Rightarrow> string" where
  "lower s = map lower_char s"

section \<open>The URL library, as the crawler uses it\<close>

text \<open>
  The crawler calls two functions of Python's \<^verbatim>\<open>urllib.parse\<close>:
  \<^verbatim>\<open>urljoin(base, url)\<close> and \<^verbatim>\<open>urlparse(url).netloc\<close>. They are not code of
  the crawler, so the crawler is modelled over an arbitrary library \<open>L\<close>; both
  functions may raise.
\<close>

record urllib =
  urljoin :: "string \<Rightarrow> string \<Rightarrow> exn + string"
  urlparse_netloc :: "string \<Rightarrow> exn + string"

section \<open>URL classifier\<close>

text \<open>\<^verbatim>\<open>url.startswith(('http://', 'https://'))\<close>\<close>

definition is_http :: "string \<Rightarrow> bool" where
  "is_http u = (startswith ''http://'' u \<or> startswith ''https://'' u)"

text \<open>
  \<^verbatim>\<open>is_valid_url(self, url)\<close>, with \<open>b\<close> the value of \<^verbatim>\<open>self.base_url\<close> (a string:
  the crawl reaches this method only once the seed is known to be set) and \<open>url\<close> either
  \<^verbatim>\<open>None\<close> or a string.
\<close>

definition is_valid_url :: "urllib \<Rightarrow> string \<Rightarrow> string option \<Rightarrow> exn + bool" where
  "is_valid_url L b url =
     (case url of
        None \<Rightarrow> Inr False
      | Some u \<Rightarrow>
          if u = [] \<or> startswith ''javascript:'' u \<or> startswith ''mailto:'' u then Inr False
          else (case (if \<not> is_http u then urljoin L b u else Inr u) of
                  Inl e \<Rightarrow> Inl e
                | Inr u' \<Rightarrow>
                    (case urlparse_netloc L b of
                       Inl e \<Rightarrow> Inl e
                     | Inr base_domain \<Rightarrow>
                         (case urlparse_netloc L u' of
                            Inl e \<Rightarrow> Inl e
                          | Inr url_domain \<Rightarrow> Inr (url_domain = base_domain)))))"

text \<open>
  \<^verbatim>\<open>get_absolute_url(self, url)\<close>: \<^verbatim>\<open>url.startswith\<close> is an attribute access, which
  raises \<^verbatim>\<open>AttributeError\<close> on \<^verbatim>\<open>None\<close>.
\<close>

definition get_absolute_url :: "urllib \<Rightarrow> string \<Rightarrow> string option \<Rightarrow> exn + string" where
  "get_absolute_url L b url =
     (case url of
        None \<Rightarrow> Inl AttributeError
      | Some u \<Rightarrow> if is_http u then Inr u else urljoin L b u)"

section \<open>A model of \<^verbatim>\<open>urllib.parse\<close>\<close>

text \<open>
  \<^verbatim>\<open>urlsplit\<close>, \<^verbatim>\<open>urlparse\<close>, \<^verbatim>\<open>urlunparse\<close> and \<^verbatim>\<open>urljoin\<close> as CPython 3.11
  defines them for \<^verbatim>\<open>str\<close> arguments. The two validators of a network location
  (\<^verbatim>\<open>_check_bracketed_host\<close>, which needs the \<^verbatim>\<open>ipaddress\<close> module, and the NFKC
  test of \<^verbatim>\<open>_checknetloc\<close>, which needs \<^verbatim>\<open>unicodedata\<close>) are the parameter
  \<open>chk\<close>: \<open>chk n\<close> says that they accept the network location \<open>n\<close>.
\<close>

definition c0_control_or_space :: "char \<Rightarrow> bool" where
  "c0_control_or_space c = ((of_char c :: nat) \<le> 32)"

definition unsafe_byte :: "char \<Rightarrow> bool" where
  "unsafe_byte c = ((of_char c :: nat) = 9 \<or> (of_char c :: nat) = 10 \<or> (of_char c :: nat) = 13)"

definition is_ascii :: "char \<Rightarrow> bool" where
  "is_ascii c = ((of_char c :: nat) < 128)"

definition ascii_alpha :: "char \<Rightarrow> bool" where
  "ascii_alpha c =
     ((97 \<le> (of_char c :: nat) \<and> (of_char c :: nat) \<le> 122) \<or>
      (65 \<le> (of_char c :: nat) \<and> (of_char c :: nat) \<le> 90))"

definition scheme_char :: "char \<Rightarrow> bool" where
  "scheme_char c =
     (ascii_alpha c \<or> (48 \<le> (of_char c :: nat) \<and> (of_char c :: nat) \<le> 57) \<or>
      c = CHR ''+'' \<or> c = CHR ''-'' \<or> c = CHR ''.'')"

definition uses_relative :: "string list" where
  "uses_relative = ['''', ''ftp'', ''http'', ''gopher'', ''nntp'', ''imap'', ''wais'', ''file'',
     ''https'', ''shttp'', ''mms'', ''prospero'', ''rtsp'', ''rtsps'', ''rtspu'', ''sftp'',
     ''svn'', ''svn+ssh'', ''ws'', ''wss'']"

definition uses_netloc :: "string list" where
  "uses_netloc = ['''', ''ftp'', ''http'', ''gopher'', ''nntp'', ''telnet'', ''imap'', ''wais'',
     ''file'', ''mms'', ''https'', ''shttp'', ''snews'', ''prospero'', ''rtsp'', ''rtsps'',
     ''rtspu'', ''rsync'', ''svn'', ''svn+ssh'', ''sftp'', ''nfs'', ''git'', ''git+ssh'',
     ''ws'', ''wss'']"

definition uses_params :: "string list" where
  "uses_params = ['''', ''ftp'', ''hdl'', ''prospero'', ''http'', ''imap'', ''https'', ''shttp'',
     ''rtsp'', ''rtsps'', ''rtspu'', ''sip'', ''sips'', ''mms'', ''sftp'', ''tel'']"

text \<open>\<^verbatim>\<open>s.split(c, 1)\<close> when \<open>c\<close> occurs in \<open>s\<close>: the text before and after its first occurrence\<close>

definition before_first :: "char \<Rightarrow> string \<Rightarrow> string" where
  "before_first c s = takeWhile (\<lambda>x. x \<noteq> c) s"

definition after_first :: "char \<Rightarrow> string \<Rightarrow> string" where
  "after_first c s = drop 1 (dropWhile (\<lambda>x. x \<noteq> c) s)"

text \<open>
  The scheme test of \<^verbatim>\<open>urlsplit\<close>: \<^verbatim>\<open>i = url.find(':')\<close>, \<^verbatim>\<open>i > 0\<close>, the first
  character an ASCII letter and \<^verbatim>\<open>url[:i]\<close> made of scheme characters.
\<close>

definition split_scheme :: "string \<Rightarrow> string \<Rightarrow> string \<times> string" where
  "split_scheme dflt url =
     (case url of
        [] \<Rightarrow> (dflt, url)
      | c # _ \<Rightarrow>
          if CHR '':'' \<in> set url \<and> before_first CHR '':'' url \<noteq> [] \<and> ascii_alpha c \<and>
             list_all scheme_char (before_first CHR '':'' url)
          then (lower (before_first CHR '':'' url), after_first CHR '':'' url)
          else (dflt, url))"

definition netloc_delim :: "char \<Rightarrow> bool" where
  "netloc_delim c = (c = CHR ''/'' \<or> c = CHR ''?'' \<or> c = CHR ''#'')"

text \<open>The checks \<^verbatim>\<open>urlsplit\<close> makes on the network location; \<open>True\<close> when none raises.\<close>

definition netloc_accepted :: "(string \<Rightarrow> bool) \<Rightarrow> string \<Rightarrow> bool" where
  "netloc_accepted chk n =
     (if (CHR ''['' \<in> set n) \<noteq> (CHR '']'' \<in> set n) then False
      else if CHR ''['' \<in> set n \<and> \<not> chk n then False
      else if n \<noteq> [] \<and> \<not> list_all is_ascii n \<and> \<not> chk n then False
      else True)"

text \<open>\<^verbatim>\<open>urlsplit(url, scheme)\<close>: scheme, netloc, path, query, fragment\<close>

definition urlsplit ::
  "(string \<Rightarrow> bool) \<Rightarrow> string \<Rightarrow> string \<Rightarrow> exn + (string \<times> string \<times> string \<times> string \<times> string)"
where
  "urlsplit chk scheme0 url0 =
     (let url1 = filter (\<lambda>c. \<not> unsafe_byte c) (dropWhile c0_control_or_space url0);
          dflt = filter (\<lambda>c. \<not> unsafe_byte c)
                   (rev (dropWhile c0_control_or_space
                      (rev (dropWhile c0_control_or_space scheme0))));
          scheme = fst (split_scheme dflt url1);
          url2 = snd (split_scheme dflt url1);
          netloc = (if take 2 url2 = ''//'' then takeWhile (\<lambda>c. \<not> netloc_delim c) (drop 2 url2)
                    else []);
          url3 = (if take 2 url2 = ''//'' then dropWhile (\<lambda>c. \<not> netloc_delim c) (drop 2 url2)
                  else url2);
          fragment = (if CHR ''#'' \<in> set url3 then after_first CHR ''#'' url3 else []);
          url4 = (if CHR ''#'' \<in> set url3 then before_first CHR ''#'' url3 else url3);
          query = (if CHR ''?'' \<in> set url4 then after_first CHR ''?'' url4 else []);
          url5 = (if CHR ''?'' \<in> set url4 then before_first CHR ''?'' url4 else url4)
      in if netloc_accepted chk netloc then Inr (scheme, netloc, url5, query, fragment)
         else Inl ValueError)"

text \<open>
  \<^verbatim>\<open>_splitparams(url)\<close>: the first \<^verbatim>\<open>;\<close> at or after the last \<^verbatim>\<open>/\<close> (the first one
  at all when there is no \<^verbatim>\<open>/\<close>).
\<close>

definition splitparams :: "string \<Rightarrow> string \<times> string" where
  "splitparams url =
     (let upto_slash = rev (dropWhile (\<lambda>c. c \<noteq> CHR ''/'') (rev url));
          last_seg = rev (takeWhile (\<lambda>c. c \<noteq> CHR ''/'') (rev url))
      in if CHR '';'' \<in> set last_seg
         then (upto_slash @ before_first CHR '';'' last_seg, after_first CHR '';'' last_seg)
         else (url, []))"

text \<open>\<^verbatim>\<open>urlparse(url, scheme)\<close>: scheme, netloc, path, params, query, fragment\<close>

definition urlparse ::
  "(string \<Rightarrow> bool) \<Rightarrow> string \<Rightarrow> string \<Rightarrow>
     exn + (string \<times> string \<times> string \<times> string \<times> string \<times> string)"
where
  "urlparse chk scheme0 url0 =
     (case urlsplit chk scheme0 url0 of
        Inl e \<Rightarrow> Inl e
      | Inr (scheme, netloc, url, query, fragment) \<Rightarrow>
          if scheme \<in> set uses_params \<and> CHR '';'' \<in> set url
          then Inr (scheme, netloc, fst (splitparams url), snd (splitparams url), query, fragment)
          else Inr (scheme, netloc, url, [], query, fragment))"

definition urlunsplit :: "string \<Rightarrow> string \<Rightarrow> string \<Rightarrow> string \<Rightarrow> string \<Rightarrow> string" where
  "urlunsplit scheme netloc url0 query fragment =
     (let url1 = (if netloc \<noteq> [] \<or> (scheme \<noteq> [] \<and> scheme \<in> set uses_netloc) \<or>
                     take 2 url0 = ''//''
                  then ''//'' @ netloc @
                       (if url0 \<noteq> [] \<and> take 1 url0 \<noteq> ''/'' then ''/'' @ url0 else url0)
                  else url0);
          url2 = (if scheme \<noteq> [] then scheme @ '':'' @ url1 else url1);
          url3 = (if query \<noteq> [] then url2 @ ''?'' @ query else url2)
      in if fragment \<noteq> [] then url3 @ ''#'' @ fragment else url3)"

definition urlunparse ::
  "string \<Rightarrow> string \<Rightarrow> string \<Rightarrow> string \<Rightarrow> string \<Rightarrow> string \<Rightarrow> string"
where
  "urlunparse scheme netloc url params query fragment =
     urlunsplit scheme netloc (if params \<noteq> [] then url @ '';'' @ params else url)
       query fragment"

text \<open>\<^verbatim>\<open>s.split(c)\<close>: never the empty list\<close>

fun split_on :: "char \<Rightarrow> string \<Rightarrow> string list" where
  "split_on c [] = [[]]"
| "split_on c (x # xs) =
     (if x = c then [] # split_on c xs
      else (case split_on c xs of [] \<Rightarrow> [[x]] | y # ys \<Rightarrow> (x # y) # ys))"

text \<open>\<^verbatim>\<open>'/'.join(parts)\<close>\<close>

fun join_slash :: "string list \<Rightarrow> string" where
  "join_slash [] = []"
| "join_slash [x] = x"
| "join_slash (x # y # zs) = x @ ''/'' @ join_slash (y # zs)"

text \<open>
  The loop of \<^verbatim>\<open>urljoin\<close> over the segments: \<^verbatim>\<open>..\<close> pops (an empty list stays
  empty, the \<^verbatim>\<open>IndexError\<close> being ignored), \<^verbatim>\<open>.\<close> is skipped.
\<close>

fun resolve_segments :: "string list \<Rightarrow> string list \<Rightarrow> string list" where
  "resolve_segments [] resolved = resolved"
| "resolve_segments (seg # segs) resolved =
     (if seg = ''..'' then resolve_segments segs (butlast resolved)
      else if seg = ''.'' then resolve_segments segs resolved
      else resolve_segments segs (resolved @ [seg]))"

text \<open>\<^verbatim>\<open>segments[1:-1] = filter(None, segments[1:-1])\<close>\<close>

definition filter_inner :: "string list \<Rightarrow> string list" where
  "filter_inner segs =
     (case segs of
        [] \<Rightarrow> []
      | s # rest \<Rightarrow>
          if rest = [] then [s]
          else s # filter (\<lambda>x. x \<noteq> []) (butlast rest) @ [last rest])"

definition join_path :: "string \<Rightarrow> string \<Rightarrow> string" where
  "join_path bpath path =
     (let base_parts0 = split_on CHR ''/'' bpath;
          base_parts = (if last base_parts0 \<noteq> [] then butlast base_parts0 else base_parts0);
          segments = (if take 1 path = ''/'' then split_on CHR ''/'' path
                      else filter_inner (base_parts @ split_on CHR ''/'' path));
          resolved0 = resolve_segments segments [];
          resolved = (if last segments = ''.'' \<or> last segments = ''..'' then resolved0 @ [[]]
                      else resolved0)
      in if join_slash resolved = [] then ''/'' else join_slash resolved)"

definition py_urljoin :: "(string \<Rightarrow> bool) \<Rightarrow> string \<Rightarrow> string \<Rightarrow> exn + string" where
  "py_urljoin chk base url =
     (if base = [] then Inr url
      else if url = [] then Inr base
      else case urlparse chk [] base of
        Inl e \<Rightarrow> Inl e
      | Inr (bscheme, bnetloc, bpath, bparams, bquery, bfragment) \<Rightarrow>
         (case urlparse chk bscheme url of
            Inl e \<Rightarrow> Inl e
          | Inr (scheme, netloc, path, params, query, fragment) \<Rightarrow>
              if scheme \<noteq> bscheme \<or> scheme \<notin> set uses_relative then Inr url
              else if scheme \<in> set uses_netloc \<and> netloc \<noteq> []
              then Inr (urlunparse scheme netloc path params query fragment)
              else
                (let netloc' = (if scheme \<in> set uses_netloc then bnetloc else netloc)
                 in if path = [] \<and> params = []
                    then Inr (urlunparse scheme netloc' bpath bparams
                                (if query = [] then bquery else query) fragment)
                    else Inr (urlunparse scheme netloc' (join_path bpath path) params
                                query fragment))))"

definition py_netloc :: "(string \<Rightarrow> bool) \<Rightarrow> string \<Rightarrow> exn + string" where
  "py_netloc chk url =
     (case urlparse chk [] url of
        Inl e \<Rightarrow> Inl e
      | Inr (scheme, netloc, path, params, query, fragment) \<Rightarrow> Inr netloc)"

definition py_urllib :: "(string \<Rightarrow> bool) \<Rightarrow> urllib" where
  "py_urllib chk = \<lparr>urljoin = py_urljoin chk, urlparse_netloc = py_netloc chk\<rparr>"

text \<open>The library with validators that accept every network location.\<close>

definition std_urllib :: urllib where
  "std_urllib = py_urllib (\<lambda>n. True)"

section \<open>The browser\<close>

text \<open>
  The Selenium driver is the environment of the crawler. Its state, as far as the crawler
  can tell, is the number of calls made so far (\<open>clock\<close>), the navigation commands issued
  (\<open>history\<close>: \<^verbatim>\<open>driver.get(url)\<close> and \<^verbatim>\<open>element.click()\<close>, oldest first) and the
  number of calls of \<^verbatim>\<open>driver.quit()\<close>. What the browser answers is the \<open>world\<close>: each
  operation is a function of the driver state at the call, returning a value or raising.
  Nothing is assumed of it: a page may change between two loads, an element may go stale,
  any call may time out or be interrupted (\<open>KeyboardInterrupt\<close>).
\<close>

datatype event = Get string | Click string

record driver =
  clock :: nat
  history :: "event list"
  quit_calls :: nat

datatype By = TAG_NAME | CSS_SELECTOR

record element =
  elem_id :: string
  get_attribute :: "driver \<Rightarrow> string \<Rightarrow> exn + string option"
  is_displayed :: "driver \<Rightarrow> exn + bool"
  is_enabled :: "driver \<Rightarrow> exn + bool"
  click :: "driver \<Rightarrow> exn + unit"

text \<open>
  \<open>wait_until\<close> is the outcome of \<^verbatim>\<open>WebDriverWait(driver, timeout).until(...)\<close>;
  \<open>set_iter\<close> is the order in which Python iterates the set built by a sequence of
  insertions; \<open>report_html\<close> is the document that the template of
  \<^verbatim>\<open>generate_html_report\<close> gives for a set of images at the time of the call.
\<close>

record world =
  driver_get :: "driver \<Rightarrow> string \<Rightarrow> exn + unit"
  wait_until :: "driver \<Rightarrow> exn + unit"
  driver_find_elements :: "driver \<Rightarrow> By \<Rightarrow> string \<Rightarrow> exn + element list"
  driver_current_url :: "driver \<Rightarrow> exn + string"
  driver_execute_script :: "driver \<Rightarrow> exn + unit"
  driver_quit :: "driver \<Rightarrow> exn + unit"
  set_iter :: "string list \<Rightarrow> string list"
  report_html :: "string set \<Rightarrow> string"

text \<open>
  A computation on the driver returns the new driver state and a value or an exception.
\<close>

type_synonym 'a action = "driver \<Rightarrow> driver \<times> (exn + 'a)"

definition return :: "'a \<Rightarrow> 'a action" where
  "return x d = (d, Inr x)"

definition raise :: "exn \<Rightarrow> 'a action" where
  "raise e d = (d, Inl e)"

definition seq :: "'a action \<Rightarrow> ('a \<Rightarrow> 'b action) \<Rightarrow> 'b action" where
  "seq m f d = (case m d of (d', Inl e) \<Rightarrow> (d', Inl e) | (d', Inr x) \<Rightarrow> f x d')"

text \<open>\<^verbatim>\<open>try: m  except Exception: h\<close>\<close>

definition catch_Exception :: "'a action \<Rightarrow> 'a action \<Rightarrow> 'a action" where
  "catch_Exception m h d =
     (case m d of
        (d', Inl e) \<Rightarrow> if is_Exception e then h d' else (d', Inl e)
      | (d', Inr x) \<Rightarrow> (d', Inr x))"

text \<open>A call of the driver or of an element: the world answers, the clock advances.\<close>

definition call :: "(driver \<Rightarrow> exn + 'a) \<Rightarrow> 'a action" where
  "call f d = (d\<lparr>clock := Suc (clock d)\<rparr>, f d)"

definition do_get :: "world \<Rightarrow> string \<Rightarrow> unit action" where
  "do_get W url d =
     (d\<lparr>clock := Suc (clock d), history := history d @ [Get url]\<rparr>, driver_get W d url)"

definition do_click :: "element \<Rightarrow> unit action" where
  "do_click el d =
     (d\<lparr>clock := Suc (clock d), history := history d @ [Click (elem_id el)]\<rparr>, click el d)"

definition do_quit :: "world \<Rightarrow> unit action" where
  "do_quit W d =
     (d\<lparr>clock := Suc (clock d), quit_calls := Suc (quit_calls d)\<rparr>, driver_quit W d)"

text \<open>Python truthiness of a value that is \<^verbatim>\<open>None\<close> or a string\<close>

definition truthy :: "string option \<Rightarrow> bool" where
  "truthy v = (case v of None \<Rightarrow> False | Some s \<Rightarrow> s \<noteq> [])"

section \<open>Image harvester and link extraction\<close>

text \<open>\<^verbatim>\<open>img.get_attribute('src') or img.get_attribute('data-src')\<close>\<close>

definition image_source :: "element \<Rightarrow> (string option) action" where
  "image_source img =
     seq (call (\<lambda>d. get_attribute img d ''src''))
       (\<lambda>src. if truthy src then return src
              else call (\<lambda>d. get_attribute img d ''data-src''))"

text \<open>
  \<^verbatim>\<open>if v and self.is_valid_url(v): urls.add(self.get_absolute_url(v))\<close>, the body shared by
  the loops of \<^verbatim>\<open>extract_images\<close> (on a set) and \<^verbatim>\<open>extract_links\<close>; \<open>add\<close> is the
  insertion.
\<close>

definition add_if_valid ::
  "urllib \<Rightarrow> string \<Rightarrow> (string \<Rightarrow> 'c \<Rightarrow> 'c) \<Rightarrow> string option \<Rightarrow> 'c \<Rightarrow> 'c action"
where
  "add_if_valid L b add v urls =
     (if truthy v
      then (case is_valid_url L b v of
              Inl e \<Rightarrow> raise e
            | Inr ok \<Rightarrow>
                if ok
                then (case get_absolute_url L b v of
                        Inl e \<Rightarrow> raise e
                      | Inr a \<Rightarrow> return (add a urls))
                else return urls)
      else return urls)"

text \<open>One iteration of \<^verbatim>\<open>for img in img_elements\<close>, with its \<^verbatim>\<open>try/except Exception\<close>.\<close>

definition harvest_image ::
  "urllib \<Rightarrow> string \<Rightarrow> element \<Rightarrow> string set \<Rightarrow> (string set) action"
where
  "harvest_image L b img image_urls =
     catch_Exception
       (seq (image_source img) (\<lambda>src. add_if_valid L b insert src image_urls))
       (return image_urls)"

fun harvest_images ::
  "urllib \<Rightarrow> string \<Rightarrow> element list \<Rightarrow> string set \<Rightarrow> (string set) action"
where
  "harvest_images L b [] image_urls d = (d, Inr image_urls)"
| "harvest_images L b (img # imgs) image_urls d =
     (case harvest_image L b img image_urls d of
        (d', Inl e) \<Rightarrow> (d', Inl e)
      | (d', Inr image_urls') \<Rightarrow> harvest_images L b imgs image_urls' d')"

text \<open>
  \<^verbatim>\<open>extract_images(self, url)\<close>. The two handlers (\<^verbatim>\<open>TimeoutException\<close>, then
  \<^verbatim>\<open>Exception\<close>) differ in the log line only: both return the empty set.
\<close>

definition extract_images :: "world \<Rightarrow> urllib \<Rightarrow> string \<Rightarrow> string \<Rightarrow> (string set) action" where
  "extract_images W L b url =
     catch_Exception
       (seq (do_get W url) (\<lambda>_.
        seq (call (wait_until W)) (\<lambda>_.
        seq (call (\<lambda>d. driver_find_elements W d TAG_NAME ''img'')) (\<lambda>img_elements.
        harvest_images L b img_elements {}))))
       (return {})"

text \<open>
  \<^verbatim>\<open>extract_links(self, url)\<close>. The set \<^verbatim>\<open>links\<close> is represented by the sequence of
  its insertions; the caller iterates it in the order \<open>set_iter\<close>.
\<close>

definition harvest_link ::
  "urllib \<Rightarrow> string \<Rightarrow> element \<Rightarrow> string list \<Rightarrow> (string list) action"
where
  "harvest_link L b el links =
     catch_Exception
       (seq (call (\<lambda>d. get_attribute el d ''href''))
          (\<lambda>href. add_if_valid L b (\<lambda>a ls. ls @ [a]) href links))
       (return links)"

fun harvest_links ::
  "urllib \<Rightarrow> string \<Rightarrow> element list \<Rightarrow> string list \<Rightarrow> (string list) action"
where
  "harvest_links L b [] links d = (d, Inr links)"
| "harvest_links L b (el # els) links d =
     (case harvest_link L b el links d of
        (d', Inl e) \<Rightarrow> (d', Inl e)
      | (d', Inr links') \<Rightarrow> harvest_links L b els links' d')"

definition extract_links :: "world \<Rightarrow> urllib \<Rightarrow> string \<Rightarrow> string \<Rightarrow> (string list) action" where
  "extract_links W L b url =
     catch_Exception
       (seq (do_get W url) (\<lambda>_.
        seq (call (wait_until W)) (\<lambda>_.
        seq (call (\<lambda>d. driver_find_elements W d TAG_NAME ''a'')) (\<lambda>elements.
        harvest_links L b elements []))))
       (return [])"

section \<open>Pagination strategy\<close>

definition pager_css :: "string \<Rightarrow> string" where
  "pager_css pager_selector =
     pager_selector @ '', a[rel='next'], .pagination-next, .next, .page-next''"

definition heuristic_css :: string where
  "heuristic_css = ''a[href*='page'], a[href*='p='], a[href*='/2']''"

text \<open>
  The body of the \<^verbatim>\<open>try\<close> in the loop of \<^verbatim>\<open>has_next_page\<close>. The argument of
  \<^verbatim>\<open>logger.debug\<close> is an f-string, evaluated before the call:
  \<^verbatim>\<open>button.get_attribute('outerHTML')[:100]\<close> raises \<^verbatim>\<open>TypeError\<close> on \<^verbatim>\<open>None\<close>.
\<close>

definition button_usable :: "element \<Rightarrow> bool action" where
  "button_usable button =
     seq (call (is_displayed button)) (\<lambda>displayed.
       if \<not> displayed then return False
       else seq (call (is_enabled button)) (\<lambda>enabled.
         if \<not> enabled then return False
         else seq (call (\<lambda>d. get_attribute button d ''outerHTML'')) (\<lambda>html.
           case html of None \<Rightarrow> raise TypeError | Some _ \<Rightarrow> return True)))"

fun has_next_loop :: "element list \<Rightarrow> bool action" where
  "has_next_loop [] d = (d, Inr False)"
| "has_next_loop (button # buttons) d =
     (case button_usable button d of
        (d', Inr usable) \<Rightarrow> if usable then (d', Inr True) else has_next_loop buttons d'
      | (d', Inl e) \<Rightarrow> if is_Exception e then has_next_loop buttons d' else (d', Inl e))"

definition has_next_page :: "world \<Rightarrow> string \<Rightarrow> bool action" where
  "has_next_page W pager_selector =
     catch_Exception
       (seq (call (\<lambda>d. driver_find_elements W d CSS_SELECTOR (pager_css pager_selector)))
          has_next_loop)
       (return False)"

text \<open>
  The body of the \<^verbatim>\<open>try\<close> in the first loop of \<^verbatim>\<open>go_to_next_page\<close>:
  \<open>Some u\<close> when the function returns \<open>u\<close>, \<open>None\<close> when the loop goes on.
\<close>

definition click_button :: "world \<Rightarrow> string \<Rightarrow> element \<Rightarrow> (string option) action" where
  "click_button W current button =
     seq (call (is_displayed button)) (\<lambda>displayed.
       if \<not> displayed then return None
       else seq (call (is_enabled button)) (\<lambda>enabled.
         if \<not> enabled then return None
         else seq (call (\<lambda>d. get_attribute button d ''href'')) (\<lambda>next_url.
           if truthy next_url \<and> next_url \<noteq> Some current
           then seq (call (driver_execute_script W)) (\<lambda>_.
                seq (do_click button) (\<lambda>_.
                seq (call (wait_until W)) (\<lambda>_.
                seq (call (wait_until W)) (\<lambda>_.
                seq (call (driver_current_url W)) (\<lambda>u. return (Some u))))))
           else return None)))"

fun click_loop :: "world \<Rightarrow> string \<Rightarrow> element list \<Rightarrow> (string option) action" where
  "click_loop W current [] d = (d, Inr None)"
| "click_loop W current (button # buttons) d =
     (case click_button W current button d of
        (d', Inr (Some u)) \<Rightarrow> (d', Inr (Some u))
      | (d', Inr None) \<Rightarrow> click_loop W current buttons d'
      | (d', Inl e) \<Rightarrow> if is_Exception e then click_loop W current buttons d' else (d', Inl e))"

text \<open>
  The test of the second loop,
  \<^verbatim>\<open>href and href != current_url and 'page' in href.lower() or 'p=' in href.lower()\<close>:
  \<^verbatim>\<open>and\<close> binds tighter than \<^verbatim>\<open>or\<close>. On \<^verbatim>\<open>None\<close> the left operand is false and
  the right one raises \<^verbatim>\<open>AttributeError\<close>.
\<close>

definition suggests_next :: "string \<Rightarrow> string option \<Rightarrow> exn + bool" where
  "suggests_next current href =
     (case href of
        None \<Rightarrow> Inl AttributeError
      | Some h \<Rightarrow>
          Inr ((h \<noteq> [] \<and> h \<noteq> current \<and> contains ''page'' (lower h)) \<or>
               contains ''p='' (lower h)))"

definition follow_link :: "world \<Rightarrow> string \<Rightarrow> element \<Rightarrow> (string option) action" where
  "follow_link W current link =
     seq (call (\<lambda>d. get_attribute link d ''href'')) (\<lambda>href.
       case suggests_next current href of
         Inl e \<Rightarrow> raise e
       | Inr follow \<Rightarrow>
           (case href of
              Some h \<Rightarrow>
                if follow
                then seq (do_get W h) (\<lambda>_.
                     seq (call (wait_until W)) (\<lambda>_.
                     seq (call (driver_current_url W)) (\<lambda>u. return (Some u))))
                else return None
            | None \<Rightarrow> return None))"

fun follow_loop :: "world \<Rightarrow> string \<Rightarrow> element list \<Rightarrow> (string option) action" where
  "follow_loop W current [] d = (d, Inr None)"
| "follow_loop W current (link # links) d =
     (case follow_link W current link d of
        (d', Inr (Some u)) \<Rightarrow> (d', Inr (Some u))
      | (d', Inr None) \<Rightarrow> follow_loop W current links d'
      | (d', Inl e) \<Rightarrow> if is_Exception e then follow_loop W current links d' else (d', Inl e))"

text \<open>
  \<^verbatim>\<open>go_to_next_page(self)\<close>: the URL it returns, or \<^verbatim>\<open>None\<close>. The first statement,
  \<^verbatim>\<open>current_url = self.driver.current_url\<close>, stands before the \<^verbatim>\<open>try\<close>.
\<close>

definition go_to_next_page :: "world \<Rightarrow> string \<Rightarrow> (string option) action" where
  "go_to_next_page W pager_selector =
     seq (call (driver_current_url W)) (\<lambda>current.
       catch_Exception
         (seq (call (\<lambda>d. driver_find_elements W d CSS_SELECTOR (pager_css pager_selector)))
            (\<lambda>next_buttons.
          seq (click_loop W current next_buttons) (\<lambda>clicked.
            case clicked of
              Some u \<Rightarrow> return (Some u)
            | None \<Rightarrow>
                seq (call (\<lambda>d. driver_find_elements W d CSS_SELECTOR heuristic_css))
                  (follow_loop W current))))
         (return None))"

section \<open>Traversal controller\<close>

text \<open>
  The attributes of the crawler that \<^verbatim>\<open>__init__\<close> reads from the environment and never
  changes afterwards.
\<close>

record crawler =
  base_url :: "string option"
  pager_selector :: string
  max_pages :: int
  timeout :: int
  user_agent :: "string option"
  session_dir :: string

text \<open>
  Where the control of \<^verbatim>\<open>crawl\<close> stands: before the loop, in the loop, after the
  loop was left by its condition or a \<^verbatim>\<open>break\<close>, or leaving the \<^verbatim>\<open>try\<close>
  block with an exception.
\<close>

datatype status = NotStarted | Running | LoopDone | Raised exn

text \<open>
  The state of a run: the driver, the files written, the two sets of the crawler object,
  the local variables of \<^verbatim>\<open>crawl\<close>, and the URLs of the log lines
  \<^verbatim>\<open>Crawling page n: url\<close> in the order they were written (\<open>crawl_log\<close>): the pages
  handed to the harvester. \<open>escaped\<close> is the exception that leaves \<^verbatim>\<open>crawl\<close>, if any.
\<close>

record crawl_state =
  drv :: driver
  files :: "string \<Rightarrow> string option"
  visited_urls :: "string set"
  image_urls :: "string set"
  crawl_log :: "string list"
  current_url :: string
  page_count :: int
  status :: status
  escaped :: "exn option"

text \<open>The condition of the \<^verbatim>\<open>while\<close> loop\<close>

definition loop_condition :: "crawler \<Rightarrow> crawl_state \<Rightarrow> bool" where
  "loop_condition c s =
     (current_url s \<noteq> [] \<and> (max_pages c = 0 \<or> page_count s < max_pages c))"

text \<open>
  \<^verbatim>\<open>unvisited_links = [link for link in links if link not in self.visited_urls]\<close> and
  the choice of \<^verbatim>\<open>unvisited_links[0]\<close>, \<open>None\<close> when the list is empty.
\<close>

definition first_unvisited :: "world \<Rightarrow> string set \<Rightarrow> string list \<Rightarrow> string option" where
  "first_unvisited W visited links =
     (case filter (\<lambda>link. link \<notin> visited) (set_iter W links) of
        [] \<Rightarrow> None
      | link # _ \<Rightarrow> Some link)"

text \<open>
  The end of the loop body, from the comment \<^verbatim>\<open># If no next page via pager\<close> on:
  the links of the current page, the first unvisited one, or \<^verbatim>\<open>break\<close>.
\<close>

definition link_fallback :: "world \<Rightarrow> urllib \<Rightarrow> string \<Rightarrow> crawl_state \<Rightarrow> crawl_state" where
  "link_fallback W L b s =
     (case extract_links W L b (current_url s) (drv s) of
        (d, Inl e) \<Rightarrow> s\<lparr>drv := d, status := Raised e\<rparr>
      | (d, Inr links) \<Rightarrow>
          (case first_unvisited W (visited_urls s) links of
             None \<Rightarrow> s\<lparr>drv := d, status := LoopDone\<rparr>
           | Some link \<Rightarrow> s\<lparr>drv := d, current_url := link, page_count := page_count s + 1\<rparr>))"

text \<open>
  The loop body from \<^verbatim>\<open># Check for next page\<close> on: the pager first, the links when
  it gives nothing new.
\<close>

definition next_page :: "world \<Rightarrow> urllib \<Rightarrow> crawler \<Rightarrow> string \<Rightarrow> crawl_state \<Rightarrow> crawl_state" where
  "next_page W L c b s =
     (case has_next_page W (pager_selector c) (drv s) of
        (d, Inl e) \<Rightarrow> s\<lparr>drv := d, status := Raised e\<rparr>
      | (d, Inr has_next) \<Rightarrow>
          if has_next
          then (case go_to_next_page W (pager_selector c) d of
                  (d', Inl e) \<Rightarrow> s\<lparr>drv := d', status := Raised e\<rparr>
                | (d', Inr next_url) \<Rightarrow>
                    (case next_url of
                       None \<Rightarrow> link_fallback W L b (s\<lparr>drv := d'\<rparr>)
                     | Some u \<Rightarrow>
                         if u \<noteq> [] \<and> u \<noteq> current_url s
                         then s\<lparr>drv := d', current_url := u, page_count := page_count s + 1\<rparr>
                         else link_fallback W L b (s\<lparr>drv := d'\<rparr>)))
          else link_fallback W L b (s\<lparr>drv := d\<rparr>))"

text \<open>
  One turn of the \<^verbatim>\<open>while\<close> loop, its condition included. A state that is not in the
  loop is left as it is.
\<close>

definition crawl_iter :: "world \<Rightarrow> urllib \<Rightarrow> crawler \<Rightarrow> string \<Rightarrow> crawl_state \<Rightarrow> crawl_state" where
  "crawl_iter W L c b s =
     (if status s \<noteq> Running then s
      else if \<not> loop_condition c s then s\<lparr>status := LoopDone\<rparr>
      else if current_url s \<in> visited_urls s then s\<lparr>status := LoopDone\<rparr>
      else
        (let s1 = s\<lparr>crawl_log := crawl_log s @ [current_url s],
                     visited_urls := insert (current_url s) (visited_urls s)\<rparr>
         in case extract_images W L b (current_url s1) (drv s1) of
              (d, Inl e) \<Rightarrow> s1\<lparr>drv := d, status := Raised e\<rparr>
            | (d, Inr images) \<Rightarrow>
                next_page W L c b
                  (s1\<lparr>drv := d,
                       image_urls := (if images \<noteq> {} then image_urls s1 \<union> images
                                      else image_urls s1)\<rparr>)))"

text \<open>The state in which the loop is entered: \<^verbatim>\<open>current_url = self.base_url; page_count = 0\<close>\<close>

definition enter_loop :: "string \<Rightarrow> crawl_state \<Rightarrow> crawl_state" where
  "enter_loop b s = s\<lparr>current_url := b, page_count := 0, status := Running\<rparr>"

text \<open>
  \<^verbatim>\<open>generate_html_report(self)\<close>: nothing at all when there is no image, the file
  \<^verbatim>\<open>index.html\<close> of the session directory otherwise.
\<close>

definition report_path :: "crawler \<Rightarrow> string" where
  "report_path c = session_dir c @ ''/index.html''"

definition generate_html_report :: "world \<Rightarrow> crawler \<Rightarrow> crawl_state \<Rightarrow> crawl_state" where
  "generate_html_report W c s =
     (if image_urls s = {} then s
      else s\<lparr>files := (files s)(report_path c \<mapsto> report_html W (image_urls s))\<rparr>)"

text \<open>The report document that a state holds for the session of the crawler, if any.\<close>

definition report_file :: "crawler \<Rightarrow> crawl_state \<Rightarrow> string option" where
  "report_file c s = files s (report_path c)"

text \<open>
  \<^verbatim>\<open>cleanup(self)\<close>: \<^verbatim>\<open>self.driver.quit()\<close> under \<^verbatim>\<open>try/except Exception\<close>. The
  attribute \<^verbatim>\<open>driver\<close> exists on every constructed crawler.
\<close>

definition cleanup :: "world \<Rightarrow> crawl_state \<Rightarrow> crawl_state" where
  "cleanup W s =
     (case catch_Exception (do_quit W) (return ()) (drv s) of
        (d, Inl e) \<Rightarrow> s\<lparr>drv := d, escaped := Some e\<rparr>
      | (d, Inr _) \<Rightarrow> s\<lparr>drv := d\<rparr>)"

text \<open>
  What follows the loop: the report when the loop ended by itself; the two handlers only
  log; \<^verbatim>\<open>finally\<close> runs \<^verbatim>\<open>cleanup\<close>.
\<close>

definition after_loop :: "world \<Rightarrow> crawler \<Rightarrow> crawl_state \<Rightarrow> crawl_state" where
  "after_loop W c s =
     cleanup W (if status s = LoopDone then generate_html_report W c s else s)"

text \<open>
  \<^verbatim>\<open>crawl(self)\<close>, started in the state \<open>s\<close> that \<^verbatim>\<open>__init__\<close> left. The loop may
  run forever when \<^verbatim>\<open>MAX_PAGES\<close> is 0 and the site never ends, so the run is given a
  number of turns: the result is \<open>None\<close> when the loop is still running after
  \<open>fuel\<close> turns.
\<close>

definition crawl ::
  "nat \<Rightarrow> world \<Rightarrow> urllib \<Rightarrow> crawler \<Rightarrow> crawl_state \<Rightarrow> crawl_state option"
where
  "crawl fuel W L c s =
     (case base_url c of
        None \<Rightarrow> Some s
      | Some b \<Rightarrow>
          if b = [] then Some s
          else if status (((crawl_iter W L c b) ^^ fuel) (enter_loop b s)) = Running then None
          else Some (after_loop W c (((crawl_iter W L c b) ^^ fuel) (enter_loop b s))))"

text \<open>The driver and the crawler object as \<^verbatim>\<open>__init__\<close> leaves them.\<close>

definition new_driver :: driver where
  "new_driver = \<lparr>clock = 0, history = [], quit_calls = 0\<rparr>"

definition initial_state :: crawl_state where
  "initial_state =
     \<lparr>drv = new_driver, files = Map.empty, visited_urls = {}, image_urls = {},
      crawl_log = [], current_url = [], page_count = 0, status = NotStarted,
      escaped = None\<rparr>"

section \<open>Construction of the crawler\<close>

text \<open>
  Python's builtin \<^verbatim>\<open>int\<close> applied to a string is not code of the crawler, and what it
  accepts depends on the interpreter (the limit on the number of digits is a setting of
  the process), so \<^verbatim>\<open>__init__\<close> is modelled over an arbitrary \<open>int_of_str\<close>:
  \<open>None\<close> when \<^verbatim>\<open>int(s)\<close> raises \<^verbatim>\<open>ValueError\<close>.

  \<open>int_literal\<close> is that function as CPython 3.11 computes it with its default settings,
  on strings whose characters are the code points below 256: white space around (the
  characters 9 to 13 and 32, and the two white space characters above 127, U+0085 and
  U+00A0; the separators 28 to 31 are not skipped), an optional sign, decimal digits with
  single underscores allowed between two digits, and at most 4300 digits.
\<close>

definition py_space :: "char \<Rightarrow> bool" where
  "py_space c =
     ((9 \<le> (of_char c :: nat) \<and> (of_char c :: nat) \<le> 13) \<or> (of_char c :: nat) = 32 \<or>
      (of_char c :: nat) = 133 \<or> (of_char c :: nat) = 160)"

definition is_digit :: "char \<Rightarrow> bool" where
  "is_digit c = (48 \<le> (of_char c :: nat) \<and> (of_char c :: nat) \<le> 57)"

text \<open>\<open>after_digit\<close>: the character before was a digit.\<close>

fun parse_digits :: "bool \<Rightarrow> nat \<Rightarrow> string \<Rightarrow> nat option" where
  "parse_digits after_digit acc [] = (if after_digit then Some acc else None)"
| "parse_digits after_digit acc (c # cs) =
     (if is_digit c then parse_digits True (10 * acc + ((of_char c :: nat) - 48)) cs
      else if c = CHR ''_'' \<and> after_digit then parse_digits False acc cs
      else None)"

definition max_str_digits :: nat where
  "max_str_digits = 4300"

definition int_literal :: "string \<Rightarrow> int option" where
  "int_literal s =
     (if max_str_digits < length (filter is_digit s) then None
      else case rev (dropWhile py_space (rev (dropWhile py_space s))) of
        [] \<Rightarrow> None
      | c # cs \<Rightarrow>
          if c = CHR ''-'' then map_option (\<lambda>n. - int n) (parse_digits False 0 cs)
          else if c = CHR ''+'' then map_option int (parse_digits False 0 cs)
          else map_option int (parse_digits False 0 (c # cs)))"

text \<open>
  The environment of \<^verbatim>\<open>__init__\<close>: \<^verbatim>\<open>os.getenv\<close> once \<^verbatim>\<open>load_dotenv()\<close> has
  run, the builtin \<^verbatim>\<open>int\<close> on strings, the time stamp of the session, the outcome of
  \<^verbatim>\<open>ChromeDriverManager(...).install()\<close>, and the outcome of the \<open>n\<close>-th start of a
  browser (\<^verbatim>\<open>webdriver.Chrome(...)\<close> followed by \<^verbatim>\<open>set_page_load_timeout\<close>).
\<close>

record launcher =
  getenv :: "string \<Rightarrow> string option"
  int_of_str :: "string \<Rightarrow> int option"
  now :: string
  install_driver :: "exn + string"
  start_chrome :: "nat \<Rightarrow> exn + unit"

text \<open>What \<^verbatim>\<open>__init__\<close> has done to the machine: directories made, browsers started.\<close>

record init_effects =
  made_dirs :: "string list"
  chrome_starts :: nat

text \<open>
  \<^verbatim>\<open>setup_driver(self)\<close>: the number of browser starts and the result. It returns
  \<^verbatim>\<open>True\<close> or raises; a failed installation of the driver is replaced by the system
  driver, a failed start by one more start.
\<close>

definition setup_driver :: "launcher \<Rightarrow> nat \<times> (exn + bool)" where
  "setup_driver E =
     (case install_driver E of
        Inl KeyboardInterrupt \<Rightarrow> (0, Inl KeyboardInterrupt)
      | _ \<Rightarrow>
          (case start_chrome E 0 of
             Inr _ \<Rightarrow> (1, Inr True)
           | Inl e \<Rightarrow>
               if \<not> is_Exception e then (1, Inl e)
               else (case start_chrome E 1 of
                       Inr _ \<Rightarrow> (2, Inr True)
                     | Inl e2 \<Rightarrow> if is_Exception e2 then (2, Inl InitError) else (2, Inl e2))))"

text \<open>\<^verbatim>\<open>int(os.getenv(name, default))\<close> with an integer default\<close>

definition getenv_int :: "launcher \<Rightarrow> string \<Rightarrow> int \<Rightarrow> exn + int" where
  "getenv_int E name dflt =
     (case getenv E name of
        None \<Rightarrow> Inr dflt
      | Some v \<Rightarrow> (case int_of_str E v of None \<Rightarrow> Inl ValueError | Some n \<Rightarrow> Inr n))"

definition no_effects :: init_effects where
  "no_effects = \<lparr>made_dirs = [], chrome_starts = 0\<rparr>"

text \<open>\<^verbatim>\<open>ImageCrawler.__init__\<close>: the effects, and the crawler or the exception raised.\<close>

definition init :: "launcher \<Rightarrow> init_effects \<times> (exn + crawler)" where
  "init E =
     (case getenv_int E ''MAX_PAGES'' 10 of
        Inl e \<Rightarrow> (no_effects, Inl e)
      | Inr mp \<Rightarrow>
          (case getenv_int E ''PAGE_LOAD_TIMEOUT'' 30 of
             Inl e \<Rightarrow> (no_effects, Inl e)
           | Inr t \<Rightarrow>
               (case setup_driver E of
                  (n, Inl e) \<Rightarrow>
                    (\<lparr>made_dirs = [''RESULT'', ''RESULT/'' @ now E], chrome_starts = n\<rparr>, Inl e)
                | (n, Inr ok) \<Rightarrow>
                    (\<lparr>made_dirs = [''RESULT'', ''RESULT/'' @ now E], chrome_starts = n\<rparr>,
                     if \<not> ok then Inl InitError
                     else Inr \<lparr>base_url = getenv E ''START_URL'',
                               pager_selector =
                                 (case getenv E ''PAGER_SELECTOR'' of
                                    None \<Rightarrow> ''.next-page'' | Some v \<Rightarrow> v),
                               max_pages = mp, timeout = t,
                               user_agent = getenv E ''USER_AGENT'',
                               session_dir = ''RESULT/'' @ now E\<rparr>))))"

section \<open>Static sites\<close>

text \<open>
  A world for examples: a site that never changes and never fails. A page lists the
  elements that each of the four queries of the crawler finds on it. An element is
  identified by the URL it leads to, and the browser is at the URL of its last navigation
  command.
\<close>

record page =
  page_imgs :: "element list"
  page_anchors :: "element list"
  page_pagers :: "element list"
  page_heuristic :: "element list"

definition static_element :: "string \<Rightarrow> (string \<Rightarrow> string option) \<Rightarrow> bool \<Rightarrow> bool \<Rightarrow> element" where
  "static_element target attrs displayed enabled =
     \<lparr>elem_id = target, get_attribute = (\<lambda>d name. Inr (attrs name)),
      is_displayed = (\<lambda>d. Inr displayed), is_enabled = (\<lambda>d. Inr enabled),
      click = (\<lambda>d. Inr ())\<rparr>"

text \<open>\<^verbatim>\<open><img src=...>\<close>, without or with a \<^verbatim>\<open>data-src\<close>\<close>

definition img_tag :: "string option \<Rightarrow> string option \<Rightarrow> element" where
  "img_tag src data_src =
     static_element [] (\<lambda>name. if name = ''src'' then src
                               else if name = ''data-src'' then data_src else None) True True"

text \<open>\<^verbatim>\<open><a href=...>\<close>, visible and enabled\<close>

definition a_tag :: "string \<Rightarrow> element" where
  "a_tag href =
     static_element href (\<lambda>name. if name = ''href'' then Some href
                                 else if name = ''outerHTML'' then Some ''<a>'' else None)
       True True"


definition location :: "driver \<Rightarrow> string" where
  "location d =
     (case rev (history d) of
        [] \<Rightarrow> ''data:,''
      | Get u # _ \<Rightarrow> u
      | Click u # _ \<Rightarrow> u)"

definition empty_page :: page where
  "empty_page = \<lparr>page_imgs = [], page_anchors = [], page_pagers = [], page_heuristic = []\<rparr>"

definition static_world :: "(string \<Rightarrow> page) \<Rightarrow> world" where
  "static_world site =
     \<lparr>driver_get = (\<lambda>d url. Inr ()),
      wait_until = (\<lambda>d. Inr ()),
      driver_find_elements =
        (\<lambda>d by sel. Inr
           (case by of
              TAG_NAME \<Rightarrow>
                if sel = ''img'' then page_imgs (site (location d))
                else if sel = ''a'' then page_anchors (site (location d))
                else []
            | CSS_SELECTOR \<Rightarrow>
                if sel = heuristic_css then page_heuristic (site (location d))
                else page_pagers (site (location d)))),
      driver_current_url = (\<lambda>d. Inr (location d)),
      driver_execute_script = (\<lambda>d. Inr ()),
      driver_quit = (\<lambda>d. Inr ()),
      set_iter = remdups,
      report_html = (\<lambda>images. ''<!DOCTYPE html>'')\<rparr>"

definition example_crawler :: "string option \<Rightarrow> int \<Rightarrow> crawler" where
  "example_crawler seed cap =
     \<lparr>base_url = seed, pager_selector = ''.next-page'', max_pages = cap, timeout = 30,
      user_agent = None, session_dir = ''RESULT/20240101_000000''\<rparr>"

text \<open>A seed page whose pager control leads to another site.\<close>

definition offsite_pager_site :: "string \<Rightarrow> page" where
  "offsite_pager_site url =
     (if url = ''http://seed.test/''
      then empty_page\<lparr>page_pagers := [a_tag ''http://other.test/page/2'']\<rparr>
      else empty_page)"

text \<open>A listing whose only pagination link is the link to the page itself.\<close>

definition self_link_site :: "string \<Rightarrow> page" where
  "self_link_site url =
     (if url = ''http://seed.test/list?p=1''
      then empty_page\<lparr>page_heuristic := [a_tag ''http://seed.test/list?p=1'']\<rparr>
      else empty_page)"

text \<open>
  A gallery of three pages: the first leads to the second by its pager, the second to the
  third by a plain link next to a link back and a link to another site; each page shows
  images.
\<close>

definition gallery_site :: "string \<Rightarrow> page" where
  "gallery_site url =
     (if url = ''http://seed.test/''
      then \<lparr>page_imgs = [img_tag (Some ''/img/a.png'') None, img_tag None (Some ''/img/b.png'')],
            page_anchors = [a_tag ''http://seed.test/2''],
            page_pagers = [a_tag ''http://seed.test/2''],
            page_heuristic = []\<rparr>
      else if url = ''http://seed.test/2''
      then \<lparr>page_imgs = [img_tag (Some ''http://cdn.test/c.png'') None,
                          img_tag (Some ''http://seed.test/img/a.png'') None],
            page_anchors = [a_tag ''http://seed.test/'', a_tag ''http://other.test/'',
                            a_tag ''http://seed.test/3''],
            page_pagers = [],
            page_heuristic = []\<rparr>
      else empty_page)"

text \<open>
  A site without end: every page has a pager control leading to a page not seen before
  (the URL of the page with one more \<^verbatim>\<open>x\<close>).
\<close>

definition endless_site :: "string \<Rightarrow> page" where
  "endless_site url = empty_page\<lparr>page_pagers := [a_tag (url @ ''x'')]\<rparr>"


text \<open>
  A machine with CPython's \<^verbatim>\<open>int\<close>, on which the browser starts at once, with the given
  environment variables.
\<close>

definition example_launcher :: "(string \<Rightarrow> string option) \<Rightarrow> launcher" where
  "example_launcher env =
     \<lparr>getenv = env, int_of_str = int_literal, now = ''20240101_000000'',
      install_driver = Inr ''/usr/bin/chromedriver'', start_chrome = (\<lambda>n. Inr ())\<rparr>"

text \<open>
  The gallery seen through a browser that cannot tell its current URL any more: the first
  statement of \<^verbatim>\<open>go_to_next_page\<close> raises.
\<close>

definition lost_url_world :: world where
  "lost_url_world =
     (static_world gallery_site)\<lparr>driver_current_url := (\<lambda>d. Inl WebDriverException)\<rparr>"

text \<open>
  Strings on which \<^verbatim>\<open>urlsplit\<close> has nothing to validate: ASCII characters, no square
  bracket.
\<close>

definition plain_char :: "char \<Rightarrow> bool" where
  "plain_char c = (is_ascii c \<and> c \<noteq> CHR ''['' \<and> c \<noteq> CHR '']'')"

definition plain :: "string \<Rightarrow> bool" where
  "plain s = list_all plain_char s"

section \<open>Invariants of the traversal\<close>

text \<open>
  The page cap: the visited set is finite and no larger than \<^verbatim>\<open>MAX_PAGES\<close>, and no
  larger than the page counter whenever the loop condition is about to be tested.
\<close>

definition cap_inv :: "crawler \<Rightarrow> crawl_state \<Rightarrow> bool" where
  "cap_inv c s =
     (finite (visited_urls s) \<and> int (card (visited_urls s)) \<le> max_pages c \<and>
      (status s = Running \<longrightarrow> int (card (visited_urls s)) \<le> page_count s))"

text \<open>The log of crawled pages lists the visited set without repetition.\<close>

definition log_inv :: "crawl_state \<Rightarrow> bool" where
  "log_inv s = (distinct (crawl_log s) \<and> set (crawl_log s) = visited_urls s)"

text \<open>An action that never calls \<^verbatim>\<open>driver.quit()\<close>.\<close>

definition keeps_quit :: "'a action \<Rightarrow> bool" where
  "keeps_quit m = (\<forall>d. quit_calls (fst (m d)) = quit_calls d)"

section \<open>Unfolding the model on examples\<close>

lemmas action_defs = seq_def call_def catch_Exception_def return_def raise_def do_get_def
  do_click_def do_quit_def truthy_def

lemmas static_defs = static_world_def location_def empty_page_def a_tag_def img_tag_def
  static_element_def pager_css_def heuristic_css_def

lemmas page_defs = extract_images_def extract_links_def has_next_page_def go_to_next_page_def
  button_usable_def click_button_def follow_link_def suggests_next_def harvest_image_def
  harvest_link_def image_source_def add_if_valid_def

lemmas crawl_defs = crawl_def crawl_iter_def next_page_def link_fallback_def
  first_unvisited_def loop_condition_def enter_loop_def after_loop_def cleanup_def
  generate_html_report_def

lemmas url_defs = std_urllib_def py_urllib_def py_urljoin_def py_netloc_def urlparse_def
  urlsplit_def urlunparse_def urlunsplit_def split_scheme_def splitparams_def join_path_def
  filter_inner_def netloc_accepted_def netloc_delim_def before_first_def after_first_def
  uses_relative_def uses_netloc_def uses_params_def scheme_char_def ascii_alpha_def is_ascii_def
  unsafe_byte_def c0_control_or_space_def lower_def lower_char_def is_valid_url_def
  get_absolute_url_def is_http_def startswith_def

section \<open>The URL library model: joined URLs\<close>

lemma is_http_cases:
  "is_http b \<Longrightarrow> (\<exists>r. b = ''http://'' @ r) \<or> (\<exists>r. b = ''https://'' @ r)"
  unfolding is_http_def startswith_def
  by (metis append_take_drop_id)

lemma urlunsplit_prefix:
  "scheme \<noteq> [] \<Longrightarrow> scheme \<in> set uses_netloc \<Longrightarrow>
   \<exists>rest. urlunsplit scheme netloc url q f = scheme @ ''://'' @ rest"
  by (simp add: urlunsplit_def Let_def)

lemma is_http_unsplit:
  assumes "scheme = ''http'' \<or> scheme = ''https''"
  shows "is_http (urlunsplit scheme netloc url q f)"
proof -
  from assms have "scheme \<noteq> []" "scheme \<in> set uses_netloc"
    by (auto simp: uses_netloc_def)
  from urlunsplit_prefix[OF this] obtain rest
    where "urlunsplit scheme netloc url q f = scheme @ ''://'' @ rest" by blast
  with assms show ?thesis by (auto simp: is_http_def startswith_def)
qed

lemma is_http_unparse:
  "scheme = ''http'' \<or> scheme = ''https'' \<Longrightarrow> is_http (urlunparse scheme netloc url p q f)"
  unfolding urlunparse_def by (rule is_http_unsplit)

lemma split_scheme_http:
  "fst (split_scheme d (filter (\<lambda>c. \<not> unsafe_byte c)
          (dropWhile c0_control_or_space (''http://'' @ r)))) = ''http''"
  by (simp add: split_scheme_def unsafe_byte_def c0_control_or_space_def before_first_def
      ascii_alpha_def scheme_char_def lower_def lower_char_def)

lemma split_scheme_https:
  "fst (split_scheme d (filter (\<lambda>c. \<not> unsafe_byte c)
          (dropWhile c0_control_or_space (''https://'' @ r)))) = ''https''"
  by (simp add: split_scheme_def unsafe_byte_def c0_control_or_space_def before_first_def
      ascii_alpha_def scheme_char_def lower_def lower_char_def)

lemma urlsplit_scheme_http:
  assumes "is_http b" and "urlsplit chk d b = Inr (s, n, p, q, f)"
  shows "s = ''http'' \<or> s = ''https''"
proof -
  from assms(2) have s:
    "s = fst (split_scheme
               (filter (\<lambda>c. \<not> unsafe_byte c)
                 (rev (dropWhile c0_control_or_space (rev (dropWhile c0_control_or_space d)))))
               (filter (\<lambda>c. \<not> unsafe_byte c) (dropWhile c0_control_or_space b)))"
    by (simp add: urlsplit_def Let_def split: if_splits)
  from is_http_cases[OF assms(1)] show ?thesis
    using s split_scheme_http split_scheme_https by metis
qed

lemma urlparse_urlsplit:
  "urlparse chk d u = Inr (s, n, p, pa, q, f) \<Longrightarrow> \<exists>p'. urlsplit chk d u = Inr (s, n, p', q, f)"
  by (auto simp: urlparse_def split: sum.splits if_splits prod.splits)

lemma urlparse_scheme_http:
  assumes "is_http b" and "urlparse chk d b = Inr (s, n, p, pa, q, f)"
  shows "s = ''http'' \<or> s = ''https''"
  using urlparse_urlsplit[OF assms(2)] urlsplit_scheme_http[OF assms(1)] by blast

text \<open>
  Joined to a base that begins with \<^verbatim>\<open>http://\<close> or \<^verbatim>\<open>https://\<close>, a URL comes back
  either as it was or beginning with one of the two.
\<close>

lemma py_urljoin_http:
  assumes b: "is_http b" and j: "py_urljoin chk b u = Inr r"
  shows "is_http r \<or> r = u"
proof (cases "u = []")
  case True
  with b j show ?thesis
    by (auto simp: py_urljoin_def is_http_def startswith_def split: if_splits)
next
  case False
  from b have bne: "b \<noteq> []" by (auto simp: is_http_def startswith_def)
  from j bne False obtain bs bn bp bpa bq bf
    where pb: "urlparse chk [] b = Inr (bs, bn, bp, bpa, bq, bf)"
    by (auto simp: py_urljoin_def split: sum.splits)
  from j bne False pb obtain s n p pa q f
    where pu: "urlparse chk bs u = Inr (s, n, p, pa, q, f)"
    by (auto simp: py_urljoin_def split: sum.splits)
  have bs: "bs = ''http'' \<or> bs = ''https''" by (rule urlparse_scheme_http[OF b pb])
  show ?thesis
  proof (cases "s \<noteq> bs \<or> s \<notin> set uses_relative")
    case True
    with j bne False pb pu show ?thesis by (simp add: py_urljoin_def)
  next
    case same: False
    then have s: "s = ''http'' \<or> s = ''https''" using bs by simp
    from j bne False pb pu same have "\<exists>n' p' pa' q'. r = urlunparse s n' p' pa' q' f"
      by (auto simp: py_urljoin_def Let_def split: if_splits)
    with is_http_unparse[OF s] show ?thesis by auto
  qed
qed

section \<open>The traversal, step by step\<close>

lemma link_fallback_keeps:
  "visited_urls (link_fallback W L b s) = visited_urls s"
  "crawl_log (link_fallback W L b s) = crawl_log s"
  "image_urls (link_fallback W L b s) = image_urls s"
  "files (link_fallback W L b s) = files s"
  "escaped (link_fallback W L b s) = escaped s"
  by (simp_all add: link_fallback_def split: prod.splits sum.splits option.splits)

lemma link_fallback_count:
  "status (link_fallback W L b s) = Running \<Longrightarrow>
   page_count (link_fallback W L b s) = page_count s + 1"
  by (simp add: link_fallback_def split: prod.splits sum.splits option.splits)

lemma link_fallback_started:
  "status (link_fallback W L b s) = NotStarted \<Longrightarrow> status s = NotStarted"
  by (simp add: link_fallback_def split: prod.splits sum.splits option.splits)

lemma next_page_keeps:
  "visited_urls (next_page W L c b s) = visited_urls s"
  "crawl_log (next_page W L c b s) = crawl_log s"
  "image_urls (next_page W L c b s) = image_urls s"
  "files (next_page W L c b s) = files s"
  "escaped (next_page W L c b s) = escaped s"
  by (simp_all add: next_page_def link_fallback_keeps
      split: prod.splits sum.splits option.splits)

lemma next_page_count:
  "status (next_page W L c b s) = Running \<Longrightarrow>
   page_count (next_page W L c b s) = page_count s + 1"
  by (auto simp: next_page_def dest: link_fallback_count
      split: prod.splits sum.splits option.splits if_splits)

lemma next_page_started:
  "status (next_page W L c b s) = NotStarted \<Longrightarrow> status s = NotStarted"
  by (auto simp: next_page_def dest: link_fallback_started
      split: prod.splits sum.splits option.splits if_splits)

lemma crawl_iter_idle: "status s \<noteq> Running \<Longrightarrow> crawl_iter W L c b s = s"
  by (simp add: crawl_iter_def)

lemma crawl_iter_stop:
  "status s = Running \<Longrightarrow> \<not> loop_condition c s \<or> current_url s \<in> visited_urls s \<Longrightarrow>
   crawl_iter W L c b s = s\<lparr>status := LoopDone\<rparr>"
  by (auto simp: crawl_iter_def)

text \<open>
  A turn that visits a page ends in the state of an exception raised by the harvest, or
  in the state that the search for the next page makes of the harvest.
\<close>

lemma crawl_iter_visit_cases:
  assumes "status s = Running" "loop_condition c s" "current_url s \<notin> visited_urls s"
  obtains (raised) d e where
      "crawl_iter W L c b s =
         s\<lparr>crawl_log := crawl_log s @ [current_url s],
           visited_urls := insert (current_url s) (visited_urls s),
           drv := d, status := Raised e\<rparr>"
  | (harvested) d imgs where
      "crawl_iter W L c b s =
         next_page W L c b
           (s\<lparr>crawl_log := crawl_log s @ [current_url s],
              visited_urls := insert (current_url s) (visited_urls s),
              drv := d, image_urls := imgs\<rparr>)"
proof (cases "extract_images W L b (current_url s) (drv s)")
  case (Pair d r)
  show ?thesis
  proof (cases r)
    case (Inl e)
    with Pair assms show ?thesis
      by (intro raised[where d=d and e=e]) (simp add: crawl_iter_def)
  next
    case (Inr images)
    with Pair assms show ?thesis
      by (intro harvested[where d=d and
            imgs="if images \<noteq> {} then image_urls s \<union> images else image_urls s"])
         (simp add: crawl_iter_def)
  qed
qed

lemma crawl_iter_visit:
  assumes "status s = Running" "loop_condition c s" "current_url s \<notin> visited_urls s"
  shows "visited_urls (crawl_iter W L c b s) = insert (current_url s) (visited_urls s)"
    and "crawl_log (crawl_iter W L c b s) = crawl_log s @ [current_url s]"
    and "files (crawl_iter W L c b s) = files s"
    and "status (crawl_iter W L c b s) = Running \<Longrightarrow>
         page_count (crawl_iter W L c b s) = page_count s + 1"
    and "status (crawl_iter W L c b s) \<noteq> NotStarted"
proof -
  show "visited_urls (crawl_iter W L c b s) = insert (current_url s) (visited_urls s)"
    using assms
    by (cases rule: crawl_iter_visit_cases[of s c W L b]) (simp_all add: next_page_keeps)
  show "crawl_log (crawl_iter W L c b s) = crawl_log s @ [current_url s]"
    using assms
    by (cases rule: crawl_iter_visit_cases[of s c W L b]) (simp_all add: next_page_keeps)
  show "files (crawl_iter W L c b s) = files s"
    using assms
    by (cases rule: crawl_iter_visit_cases[of s c W L b]) (simp_all add: next_page_keeps)
  show "status (crawl_iter W L c b s) = Running \<Longrightarrow>
        page_count (crawl_iter W L c b s) = page_count s + 1"
    using assms
    by (cases rule: crawl_iter_visit_cases[of s c W L b]) (auto dest: next_page_count)
  show "status (crawl_iter W L c b s) \<noteq> NotStarted"
    using assms(1)
    by (cases rule: crawl_iter_visit_cases[OF assms, of W L b]) (auto dest: next_page_started)
qed

lemma cap_inv_step:
  assumes "cap_inv c s" and pos: "0 < max_pages c"
  shows "cap_inv c (crawl_iter W L c b s)"
proof (cases "status s = Running")
  case False
  with assms show ?thesis by (simp add: crawl_iter_idle)
next
  case True
  show ?thesis
  proof (cases "loop_condition c s \<and> current_url s \<notin> visited_urls s")
    case False
    with True assms show ?thesis by (auto simp: crawl_iter_stop cap_inv_def)
  next
    case go: True
    then have lc: "loop_condition c s" and nv: "current_url s \<notin> visited_urls s" by auto
    from assms True have fin: "finite (visited_urls s)"
      and le: "int (card (visited_urls s)) \<le> page_count s"
      by (auto simp: cap_inv_def)
    from lc pos have lt: "page_count s < max_pages c"
      by (auto simp: loop_condition_def)
    have v: "visited_urls (crawl_iter W L c b s) = insert (current_url s) (visited_urls s)"
      by (rule crawl_iter_visit(1)[OF True lc nv])
    have card: "int (card (visited_urls (crawl_iter W L c b s))) =
                int (card (visited_urls s)) + 1"
      using v fin nv by simp
    have "status (crawl_iter W L c b s) = Running \<longrightarrow>
          page_count (crawl_iter W L c b s) = page_count s + 1"
      using crawl_iter_visit(4)[OF True lc nv] by blast
    with card le lt v fin show ?thesis by (auto simp: cap_inv_def)
  qed
qed

lemma cap_inv_funpow:
  "cap_inv c s \<Longrightarrow> 0 < max_pages c \<Longrightarrow> cap_inv c (((crawl_iter W L c b) ^^ n) s)"
  by (induction n) (simp_all add: cap_inv_step)

lemma log_inv_step: "log_inv s \<Longrightarrow> log_inv (crawl_iter W L c b s)"
proof (cases "status s = Running \<and> loop_condition c s \<and> current_url s \<notin> visited_urls s")
  case True
  assume "log_inv s"
  with True crawl_iter_visit(1,2)[of s c W L b] show ?thesis by (auto simp: log_inv_def)
next
  case False
  assume "log_inv s"
  with False show ?thesis
    by (cases "status s = Running") (auto simp: crawl_iter_idle crawl_iter_stop log_inv_def)
qed

lemma log_inv_funpow: "log_inv s \<Longrightarrow> log_inv (((crawl_iter W L c b) ^^ n) s)"
  by (induction n) (simp_all add: log_inv_step)

lemma first_unvisited_new:
  assumes "first_unvisited W V links = Some l"
  shows "l \<notin> V \<and> l \<in> set (set_iter W links)"
proof -
  from assms obtain r where "filter (\<lambda>link. link \<notin> V) (set_iter W links) = l # r"
    by (auto simp: first_unvisited_def split: list.splits)
  then have "l \<in> set (filter (\<lambda>link. link \<notin> V) (set_iter W links))" by simp
  then show ?thesis by simp
qed

subsection \<open>The loop ends within the page cap\<close>

lemma running_count:
  "status s = Running \<Longrightarrow> page_count s = k \<Longrightarrow>
   status (((crawl_iter W L c b) ^^ n) s) = Running \<Longrightarrow>
   page_count (((crawl_iter W L c b) ^^ n) s) = k + int n"
proof (induction n)
  case 0
  then show ?case by simp
next
  case (Suc n)
  let ?t = "((crawl_iter W L c b) ^^ n) s"
  from Suc.prems(3) have r: "status (crawl_iter W L c b ?t) = Running" by simp
  have rt: "status ?t = Running"
  proof (rule ccontr)
    assume "status ?t \<noteq> Running"
    with r show False by (simp add: crawl_iter_idle)
  qed
  from Suc.IH[OF Suc.prems(1,2) rt] have pc: "page_count ?t = k + int n" .
  have go: "loop_condition c ?t \<and> current_url ?t \<notin> visited_urls ?t"
  proof (rule ccontr)
    assume "\<not> ?thesis"
    with rt have "crawl_iter W L c b ?t = ?t\<lparr>status := LoopDone\<rparr>"
      by (intro crawl_iter_stop) auto
    with r show False by simp
  qed
  from crawl_iter_visit(4)[OF rt _ _ r] go pc show ?case by simp
qed

lemma crawl_loop_ends:
  assumes "0 < max_pages c" "status s = Running" "page_count s = 0"
  shows "status (((crawl_iter W L c b) ^^ (Suc (nat (max_pages c)))) s) \<noteq> Running"
proof
  let ?n = "nat (max_pages c)"
  assume r: "status (((crawl_iter W L c b) ^^ (Suc ?n)) s) = Running"
  let ?t = "((crawl_iter W L c b) ^^ ?n) s"
  from r have r': "status (crawl_iter W L c b ?t) = Running" by simp
  have rt: "status ?t = Running"
  proof (rule ccontr)
    assume "status ?t \<noteq> Running"
    with r' show False by (simp add: crawl_iter_idle)
  qed
  from running_count[OF assms(2,3) rt] assms(1) have "page_count ?t = max_pages c" by simp
  then have "\<not> loop_condition c ?t" using assms(1) by (simp add: loop_condition_def)
  with rt have "crawl_iter W L c b ?t = ?t\<lparr>status := LoopDone\<rparr>"
    by (intro crawl_iter_stop) auto
  with r' show False by simp
qed

text \<open>With a positive page cap, \<^verbatim>\<open>crawl\<close> returns: one turn more than the cap is enough.\<close>

lemma crawl_returns_within_cap:
  assumes "0 < max_pages c"
  shows "\<exists>s'. crawl (Suc (nat (max_pages c))) W L c s = Some s'"
proof (cases "base_url c")
  case None
  then show ?thesis by (simp add: crawl_def)
next
  case (Some b)
  have "status (((crawl_iter W L c b) ^^ (Suc (nat (max_pages c)))) (enter_loop b s)) \<noteq> Running"
    by (rule crawl_loop_ends[OF assms]) (simp_all add: enter_loop_def)
  with Some show ?thesis by (simp add: crawl_def del: funpow.simps)
qed

section \<open>Only \<^verbatim>\<open>cleanup\<close> closes the browser\<close>

lemma keeps_quitD: "keeps_quit m \<Longrightarrow> m d = (d', r) \<Longrightarrow> quit_calls d' = quit_calls d"
  unfolding keeps_quit_def by (metis fst_conv)

lemma keeps_quit_return [intro!, simp]: "keeps_quit (return x)"
  by (simp add: keeps_quit_def return_def)

lemma keeps_quit_raise [intro!, simp]: "keeps_quit (raise e)"
  by (simp add: keeps_quit_def raise_def)

lemma keeps_quit_call [intro!, simp]: "keeps_quit (call f)"
  by (simp add: keeps_quit_def call_def)

lemma keeps_quit_get [intro!, simp]: "keeps_quit (do_get W u)"
  by (simp add: keeps_quit_def do_get_def)

lemma keeps_quit_click [intro!, simp]: "keeps_quit (do_click el)"
  by (simp add: keeps_quit_def do_click_def)

lemma keeps_quit_seq [intro!]: "keeps_quit m \<Longrightarrow> (\<And>x. keeps_quit (f x)) \<Longrightarrow> keeps_quit (seq m f)"
  by (auto simp: keeps_quit_def seq_def split: prod.splits sum.splits) (metis fst_conv)+

lemma keeps_quit_catch [intro!]: "keeps_quit m \<Longrightarrow> keeps_quit h \<Longrightarrow> keeps_quit (catch_Exception m h)"
  by (auto simp: keeps_quit_def catch_Exception_def split: prod.splits sum.splits) (metis fst_conv)+

lemma keeps_quit_if [intro!]: "keeps_quit m \<Longrightarrow> keeps_quit n \<Longrightarrow> keeps_quit (if c then m else n)"
  by simp

lemma keeps_quit_add_if_valid [intro!, simp]: "keeps_quit (add_if_valid L b add v urls)"
  by (auto simp: add_if_valid_def split: sum.splits)

lemma keeps_quit_harvest_images [intro!, simp]: "keeps_quit (harvest_images L b imgs acc)"
proof -
  have one: "\<And>el acc. keeps_quit (harvest_image L b el acc)"
    by (auto simp: harvest_image_def image_source_def)
  have "\<And>d. quit_calls (fst (harvest_images L b imgs acc d)) = quit_calls d"
  proof (induction imgs arbitrary: acc)
    case Nil show ?case by simp
  next
    case (Cons el imgs)
    show ?case using keeps_quitD[OF one] Cons.IH
      by (auto split: prod.splits sum.splits)
  qed
  then show ?thesis by (simp add: keeps_quit_def)
qed

lemma keeps_quit_harvest_links [intro!, simp]: "keeps_quit (harvest_links L b els acc)"
proof -
  have one: "\<And>el acc. keeps_quit (harvest_link L b el acc)"
    by (auto simp: harvest_link_def)
  have "\<And>d. quit_calls (fst (harvest_links L b els acc d)) = quit_calls d"
  proof (induction els arbitrary: acc)
    case Nil show ?case by simp
  next
    case (Cons el els)
    show ?case using keeps_quitD[OF one] Cons.IH
      by (auto split: prod.splits sum.splits)
  qed
  then show ?thesis by (simp add: keeps_quit_def)
qed

lemma keeps_quit_extract_images [intro!, simp]: "keeps_quit (extract_images W L b url)"
  by (auto simp: extract_images_def)

lemma keeps_quit_extract_links [intro!, simp]: "keeps_quit (extract_links W L b url)"
  by (auto simp: extract_links_def)

lemma keeps_quit_has_next_loop [intro!, simp]: "keeps_quit (has_next_loop buttons)"
proof -
  have one: "\<And>el. keeps_quit (button_usable el)"
    by (auto simp: button_usable_def split: option.splits)
  have "\<And>d. quit_calls (fst (has_next_loop buttons d)) = quit_calls d"
  proof (induction buttons)
    case Nil show ?case by simp
  next
    case (Cons el els)
    show ?case using keeps_quitD[OF one] Cons.IH
      by (auto split: prod.splits sum.splits)
  qed
  then show ?thesis by (simp add: keeps_quit_def)
qed

lemma keeps_quit_has_next_page [intro!, simp]: "keeps_quit (has_next_page W sel)"
  by (auto simp: has_next_page_def)

lemma keeps_quit_click_loop [intro!, simp]: "keeps_quit (click_loop W cur buttons)"
proof -
  have one: "\<And>el. keeps_quit (click_button W cur el)"
    by (auto simp: click_button_def)
  have "\<And>d. quit_calls (fst (click_loop W cur buttons d)) = quit_calls d"
  proof (induction buttons)
    case Nil show ?case by simp
  next
    case (Cons el els)
    show ?case using keeps_quitD[OF one] Cons.IH
      by (auto split: prod.splits sum.splits option.splits)
  qed
  then show ?thesis by (simp add: keeps_quit_def)
qed

lemma keeps_quit_follow_loop [intro!, simp]: "keeps_quit (follow_loop W cur links)"
proof -
  have one: "\<And>el. keeps_quit (follow_link W cur el)"
    by (auto simp: follow_link_def split: sum.splits option.splits)
  have "\<And>d. quit_calls (fst (follow_loop W cur links d)) = quit_calls d"
  proof (induction links)
    case Nil show ?case by simp
  next
    case (Cons el els)
    show ?case using keeps_quitD[OF one] Cons.IH
      by (auto split: prod.splits sum.splits option.splits)
  qed
  then show ?thesis by (simp add: keeps_quit_def)
qed

lemma keeps_quit_go_to_next_page [intro!, simp]: "keeps_quit (go_to_next_page W sel)"
  by (auto simp: go_to_next_page_def split: option.splits)

lemma link_fallback_quit: "quit_calls (drv (link_fallback W L b s)) = quit_calls (drv s)"
  using keeps_quitD[OF keeps_quit_extract_links]
  by (auto simp: link_fallback_def split: prod.splits sum.splits option.splits)

lemma next_page_quit: "quit_calls (drv (next_page W L c b s)) = quit_calls (drv s)"
  using keeps_quitD[OF keeps_quit_has_next_page] keeps_quitD[OF keeps_quit_go_to_next_page]
  by (auto simp: next_page_def link_fallback_quit split: prod.splits sum.splits option.splits)

lemma crawl_iter_quit: "quit_calls (drv (crawl_iter W L c b s)) = quit_calls (drv s)"
  using keeps_quitD[OF keeps_quit_extract_images]
  by (auto simp: crawl_iter_def Let_def next_page_quit split: prod.splits sum.splits)

lemma funpow_quit: "quit_calls (drv (((crawl_iter W L c b) ^^ n) s)) = quit_calls (drv s)"
  by (induction n) (simp_all add: crawl_iter_quit)

lemma cleanup_quit: "quit_calls (drv (cleanup W s)) = Suc (quit_calls (drv s))"
  by (auto simp: cleanup_def catch_Exception_def do_quit_def return_def split: prod.splits sum.splits)

lemma crawl_cleans_up:
  assumes "base_url c = Some b" "b \<noteq> []" "crawl fuel W L c s = Some s'"
  shows "quit_calls (drv s') = Suc (quit_calls (drv s))"
  using assms
  by (auto simp: crawl_def after_loop_def cleanup_quit funpow_quit generate_html_report_def enter_loop_def
      split: if_splits)

section \<open>The harvest, element by element\<close>









lemma extract_images_raises:
  "extract_images W L b url d = (d', Inl e) \<Longrightarrow> \<not> is_Exception e"
  by (auto simp add: extract_images_def catch_Exception_def return_def split: prod.splits sum.splits if_splits)

section \<open>A site without end\<close>

lemma endless_step:
  assumes "status s = Running" "current_url s \<noteq> []" "current_url s \<notin> visited_urls s"
  shows "status (crawl_iter (static_world endless_site) L (example_crawler seed 0) b s) = Running \<and>
         current_url (crawl_iter (static_world endless_site) L (example_crawler seed 0) b s) = current_url s @ ''x'' \<and>
         visited_urls (crawl_iter (static_world endless_site) L (example_crawler seed 0) b s) = insert (current_url s) (visited_urls s)"
  using assms
  by (simp add: crawl_iter_def next_page_def loop_condition_def page_defs action_defs static_defs endless_site_def
      example_crawler_def Let_def)

lemma endless_run:
  assumes "b \<noteq> []" "visited_urls s = {}"
  shows "status (((crawl_iter (static_world endless_site) L (example_crawler seed 0) b) ^^ n) (enter_loop b s)) = Running \<and>
         current_url (((crawl_iter (static_world endless_site) L (example_crawler seed 0) b) ^^ n) (enter_loop b s)) = b @ replicate n CHR ''x'' \<and>
         visited_urls (((crawl_iter (static_world endless_site) L (example_crawler seed 0) b) ^^ n) (enter_loop b s)) =
           (\<lambda>k. b @ replicate k CHR ''x'') ` {..<n}"
proof (induction n)
  case 0
  show ?case using assms by (simp add: enter_loop_def)
next
  case (Suc n)
  let ?t = "((crawl_iter (static_world endless_site) L (example_crawler seed 0) b) ^^ n) (enter_loop b s)"
  from Suc have r: "status ?t = Running" and u: "current_url ?t = b @ replicate n CHR ''x''"
    and v: "visited_urls ?t = (\<lambda>k. b @ replicate k CHR ''x'') ` {..<n}" by auto
  have ne: "current_url ?t \<noteq> []" using u assms by simp
  have nv: "current_url ?t \<notin> visited_urls ?t" using u v by auto
  from endless_step[OF r ne nv, of L seed b] u v show ?case
    by (simp add: replicate_append_same lessThan_Suc)
qed

lemma endless_card:
  assumes "b \<noteq> []" "visited_urls s = {}"
  shows "card (visited_urls (((crawl_iter (static_world endless_site) L (example_crawler seed 0) b) ^^ n) (enter_loop b s))) = n"
proof -
  have "inj_on (\<lambda>k. b @ replicate k CHR ''x'') {..<n}"
    by (rule inj_onI) (use length_replicate in \<open>metis same_append_eq\<close>)
  then show ?thesis using endless_run[OF assms, where L=L and seed=seed and n=n] by (simp add: card_image)
qed


section \<open>The link scan stays on the site\<close>

lemma add_if_valid_link:
  "add_if_valid L b (\<lambda>a ls. ls @ [a]) v links d = (d', Inr links') \<Longrightarrow>
   links' = links \<or>
   (\<exists>a. links' = links @ [a] \<and> is_valid_url L b v = Inr True \<and>
        get_absolute_url L b v = Inr a)"
  by (auto simp: add_if_valid_def return_def raise_def split: if_splits sum.splits)

lemma harvest_link_in_scope:
  assumes "harvest_link L b el links d = (d', Inr links')"
  shows "links' = links \<or>
         (\<exists>a v. links' = links @ [a] \<and> is_valid_url L b v = Inr True \<and>
                get_absolute_url L b v = Inr a)"
proof (cases "call (\<lambda>d. get_attribute el d ''href'') d")
  case (Pair d1 r)
  show ?thesis
  proof (cases r)
    case (Inl e)
    with Pair assms show ?thesis
      by (auto simp: harvest_link_def catch_Exception_def seq_def return_def split: if_splits)
  next
    case (Inr v)
    show ?thesis
    proof (cases "add_if_valid L b (\<lambda>a ls. ls @ [a]) v links d1")
      case inner: (Pair d2 r2)
      show ?thesis
      proof (cases r2)
        case (Inl e)
        with Pair Inr inner assms show ?thesis
          by (auto simp: harvest_link_def catch_Exception_def seq_def return_def
              split: if_splits)
      next
        case added: (Inr links2)
        with Pair Inr inner assms have "links' = links2"
          by (simp add: harvest_link_def catch_Exception_def seq_def)
        with add_if_valid_link[of L b v links d1 d2 links2] inner added show ?thesis by blast
      qed
    qed
  qed
qed

lemma harvest_links_in_scope:
  "harvest_links L b els links d = (d', Inr links') \<Longrightarrow>
   \<forall>l \<in> set links. \<exists>v. is_valid_url L b v = Inr True \<and> get_absolute_url L b v = Inr l \<Longrightarrow>
   \<forall>l \<in> set links'. \<exists>v. is_valid_url L b v = Inr True \<and> get_absolute_url L b v = Inr l"
proof (induction els arbitrary: links d)
  case Nil
  then show ?case by simp
next
  case (Cons el els)
  from Cons.prems(1) obtain d1 links1
    where one: "harvest_link L b el links d = (d1, Inr links1)"
      and rest: "harvest_links L b els links1 d1 = (d', Inr links')"
    by (auto split: prod.splits sum.splits)
  from harvest_link_in_scope[OF one] Cons.prems(2)
  have "\<forall>l \<in> set links1. \<exists>v. is_valid_url L b v = Inr True \<and> get_absolute_url L b v = Inr l"
    by auto
  from Cons.IH[OF rest this] show ?case .
qed

text \<open>
  Every link that \<^verbatim>\<open>extract_links\<close> returns is the absolute form of a reference that
  passed \<^verbatim>\<open>is_valid_url\<close>.
\<close>

lemma extract_links_in_scope:
  assumes "extract_links W L b url d = (d', Inr links)" and "l \<in> set links"
  shows "\<exists>v. is_valid_url L b v = Inr True \<and> get_absolute_url L b v = Inr l"
proof -
  have "links = [] \<or> (\<exists>els d0 d1. harvest_links L b els [] d0 = (d1, Inr links))"
    using assms(1)
    by (auto simp: extract_links_def catch_Exception_def seq_def return_def
        split: prod.splits sum.splits if_splits)
  with assms(2) obtain els d0 d1 where "harvest_links L b els [] d0 = (d1, Inr links)"
    by auto
  from harvest_links_in_scope[OF this] assms(2) show ?thesis by simp
qed

section \<open>After the loop\<close>

lemma after_loop_keeps:
  "visited_urls (after_loop W c s) = visited_urls s"
  "crawl_log (after_loop W c s) = crawl_log s"
  by (simp_all add: after_loop_def cleanup_def generate_html_report_def
      split: prod.splits sum.splits)

lemma crawl_result:
  assumes "crawl fuel W L c s = Some s'"
  shows "s' = s \<or>
         (\<exists>b. visited_urls s' = visited_urls (((crawl_iter W L c b) ^^ fuel) (enter_loop b s)) \<and>
              crawl_log s' = crawl_log (((crawl_iter W L c b) ^^ fuel) (enter_loop b s)))"
  using assms
  by (auto simp: crawl_def after_loop_keeps split: option.splits if_splits)

lemma crawl_iter_files: "files (crawl_iter W L c b s) = files s"
proof (cases "status s = Running \<and> loop_condition c s \<and> current_url s \<notin> visited_urls s")
  case True
  then show ?thesis by (intro crawl_iter_visit(3)) auto
next
  case False
  then show ?thesis
    by (cases "status s = Running") (auto simp: crawl_iter_idle crawl_iter_stop)
qed

lemma funpow_files: "files (((crawl_iter W L c b) ^^ n) s) = files s"
  by (induction n) (simp_all add: crawl_iter_files)

lemma cleanup_keeps:
  "files (cleanup W s) = files s"
  "status (cleanup W s) = status s"
  "image_urls (cleanup W s) = image_urls s"
  by (simp_all add: cleanup_def split: prod.splits sum.splits)

text \<open>
  After the loop a report is written iff the loop ended by itself and there is an image.
\<close>

lemma after_loop_report:
  "files (after_loop W c s) =
     (if status s = LoopDone \<and> image_urls s \<noteq> {}
      then (files s)(report_path c \<mapsto> report_html W (image_urls s)) else files s)"
  "status (after_loop W c s) = status s"
  "image_urls (after_loop W c s) = image_urls s"
  by (simp_all add: after_loop_def cleanup_keeps generate_html_report_def)

section \<open>Evaluating the gallery\<close>

lemma gallery_scope:
  "is_valid_url std_urllib ''http://seed.test/'' (Some ''/img/a.png'') = Inr True"
  "is_valid_url std_urllib ''http://seed.test/'' (Some ''/img/b.png'') = Inr True"
  "is_valid_url std_urllib ''http://seed.test/'' (Some ''http://cdn.test/c.png'') = Inr False"
  "is_valid_url std_urllib ''http://seed.test/'' (Some ''http://seed.test/img/a.png'') = Inr True"
  "is_valid_url std_urllib ''http://seed.test/'' (Some ''http://seed.test/'') = Inr True"
  "is_valid_url std_urllib ''http://seed.test/'' (Some ''http://other.test/'') = Inr False"
  "is_valid_url std_urllib ''http://seed.test/'' (Some ''http://seed.test/3'') = Inr True"
  by code_simp+

lemma gallery_absolute:
  "get_absolute_url std_urllib ''http://seed.test/'' (Some ''/img/a.png'') =
     Inr ''http://seed.test/img/a.png''"
  "get_absolute_url std_urllib ''http://seed.test/'' (Some ''/img/b.png'') =
     Inr ''http://seed.test/img/b.png''"
  "get_absolute_url std_urllib ''http://seed.test/'' (Some ''http://seed.test/img/a.png'') =
     Inr ''http://seed.test/img/a.png''"
  "get_absolute_url std_urllib ''http://seed.test/'' (Some ''http://seed.test/'') =
     Inr ''http://seed.test/''"
  "get_absolute_url std_urllib ''http://seed.test/'' (Some ''http://seed.test/3'') =
     Inr ''http://seed.test/3''"
  by code_simp+

lemmas walk_defs = extract_images_def extract_links_def has_next_page_def go_to_next_page_def
  button_usable_def click_button_def follow_link_def suggests_next_def harvest_image_def
  harvest_link_def image_source_def

lemma add_if_valid_eval:
  "is_valid_url L b (Some v) = Inr True \<Longrightarrow> get_absolute_url L b (Some v) = Inr a \<Longrightarrow>
   v \<noteq> [] \<Longrightarrow> add_if_valid L b add (Some v) urls = return (add a urls)"
  "is_valid_url L b (Some v) = Inr False \<Longrightarrow> add_if_valid L b add (Some v) urls = return urls"
  "add_if_valid L b add None urls = return urls"
  by (simp_all add: add_if_valid_def truthy_def)

section \<open>Strings without brackets: the library never raises\<close>

lemma plain_iff: "plain s \<longleftrightarrow> (\<forall>c \<in> set s. plain_char c)"
  by (simp add: plain_def list_all_iff)

lemma plain_subset: "set t \<subseteq> set s \<Longrightarrow> plain s \<Longrightarrow> plain t"
  by (auto simp: plain_iff)

lemma plain_append [simp]: "plain (a @ b) \<longleftrightarrow> plain a \<and> plain b"
  by (auto simp: plain_iff)



lemma plain_delims [simp]:
  "plain_char CHR ''/''" "plain_char CHR '':''" "plain_char CHR '';''"
  "plain_char CHR ''?''" "plain_char CHR ''#''"
  by (simp_all add: plain_char_def is_ascii_def)







lemma plain_rev [simp]: "plain (rev s) = plain s"
  by (simp add: plain_iff)




















text \<open>
  A square bracket without its partner makes \<^verbatim>\<open>urlparse\<close> raise, and
  \<^verbatim>\<open>is_valid_url\<close> lets the exception through.
\<close>

lemma is_valid_url_bracket_raises:
  "is_valid_url std_urllib ''http://seed.test/'' (Some ''http://['') = Inl ValueError"
  by code_simp

section \<open>The claims\<close>

text \<open>
  C1. Claim: in every reachable state of a run, every URL of the visited set and every
  URL given to the crawl cursor, those of the pager's click path and of its heuristic link
  scan included, is on the host of the seed. The code checks the host of the links of the
  link scan (\<open>extract_links_in_scope\<close>) but not of the URL that \<^verbatim>\<open>go_to_next_page\<close>
  returns. On a seed page whose pager control leads to another host, the crawl takes that
  URL as its cursor, visits it, and records it in the visited set, although
  \<^verbatim>\<open>is_valid_url\<close> rejects it.
\<close>

theorem offsite_pager_is_visited:
  "map_option crawl_log
     (crawl 3 (static_world offsite_pager_site) std_urllib
        (example_crawler (Some ''http://seed.test/'') 10) initial_state) =
     Some [''http://seed.test/'', ''http://other.test/page/2''] \<and>
   map_option (\<lambda>s. ''http://other.test/page/2'' \<in> visited_urls s)
     (crawl 3 (static_world offsite_pager_site) std_urllib
        (example_crawler (Some ''http://seed.test/'') 10) initial_state) = Some True \<and>
   is_valid_url std_urllib ''http://seed.test/'' (Some ''http://other.test/page/2'') =
     Inr False"
proof -
  have run: "map_option (\<lambda>s. (crawl_log s, ''http://other.test/page/2'' \<in> visited_urls s))
     (crawl 3 (static_world offsite_pager_site) std_urllib
        (example_crawler (Some ''http://seed.test/'') 10) initial_state) =
     Some ([''http://seed.test/'', ''http://other.test/page/2''], True)"
    by (simp add: crawl_defs page_defs action_defs static_defs offsite_pager_site_def
        example_crawler_def initial_state_def new_driver_def eval_nat_numeral Let_def)
  have scope: "is_valid_url std_urllib ''http://seed.test/''
                 (Some ''http://other.test/page/2'') = Inr False"
    by code_simp
  from run scope show ?thesis by (auto simp: map_option_case split: option.splits)
qed

text \<open>
  C2. Claim: every anchor that the heuristic fall-back of the pagination strategy
  navigates to has an \<^verbatim>\<open>href\<close> that suggests pagination and differs from the current
  URL. In the test of the source, \<^verbatim>\<open>and\<close> binds tighter than \<^verbatim>\<open>or\<close>: an
  \<^verbatim>\<open>href\<close> that contains \<^verbatim>\<open>p=\<close> is followed even when it is the current URL. On
  the listing \<^verbatim>\<open>http://seed.test/list?p=1\<close>, whose only pagination link is the link to
  itself, \<^verbatim>\<open>go_to_next_page\<close> loads the current URL once more and returns it.
\<close>

theorem heuristic_follows_current_url:
  "suggests_next ''http://seed.test/list?p=1'' (Some ''http://seed.test/list?p=1'') = Inr True \<and>
   (case go_to_next_page (static_world self_link_site) ''.next-page''
           (new_driver\<lparr>history := [Get ''http://seed.test/list?p=1'']\<rparr>) of
      (d, r) \<Rightarrow> (history d, r)) =
     ([Get ''http://seed.test/list?p=1'', Get ''http://seed.test/list?p=1''],
      Inr (Some ''http://seed.test/list?p=1''))"
  by (simp add: page_defs action_defs static_defs self_link_site_def new_driver_def
      lower_def lower_char_def startswith_def)




text \<open>
  C4. Claim: on every exit path of a run, the path taken when the seed URL is absent
  included, the browser is closed before the run ends. When the seed is set, \<^verbatim>\<open>crawl\<close>
  calls \<^verbatim>\<open>driver.quit()\<close> exactly once however the loop ends (\<open>crawl_cleans_up\<close>).
  When it is not, \<^verbatim>\<open>crawl\<close> returns before its \<^verbatim>\<open>try\<close> block: the browser that
  \<^verbatim>\<open>__init__\<close> started is never closed.
\<close>

theorem missing_seed_skips_cleanup:
  "map_option (\<lambda>s. quit_calls (drv s))
     (crawl 1 (static_world gallery_site) std_urllib (example_crawler None 10)
        initial_state) = Some 0 \<and>
   map_option (\<lambda>s. quit_calls (drv s))
     (crawl 1 (static_world gallery_site) std_urllib (example_crawler (Some []) 10)
        initial_state) = Some 0"
  by (simp add: crawl_def example_crawler_def initial_state_def new_driver_def)

text \<open>
  C5. Claim: for every URL \<open>u\<close>, \<^verbatim>\<open>get_absolute_url\<close> applied twice gives what it gives
  applied once, and an absolute URL is returned unchanged. As stated this fails. The seed
  is whatever \<^verbatim>\<open>START_URL\<close> holds: with the seed \<^verbatim>\<open>seed.test/\<close>, which has no scheme,
  \<^verbatim>\<open>a/b\<close> becomes \<^verbatim>\<open>seed.test/a/b\<close> and then \<^verbatim>\<open>seed.test/seed.test/a/b\<close>. And the
  absolute URL \<^verbatim>\<open>HTTP://seed.test/a\<close> does not begin with \<^verbatim>\<open>http://\<close> as the code tests
  it, so it goes through \<^verbatim>\<open>urljoin\<close> and comes back as \<^verbatim>\<open>http://seed.test/a\<close>.
\<close>

theorem get_absolute_url_not_idempotent:
  "get_absolute_url std_urllib ''seed.test/'' (Some ''a/b'') = Inr ''seed.test/a/b'' \<and>
   get_absolute_url std_urllib ''seed.test/'' (Some ''seed.test/a/b'') =
     Inr ''seed.test/seed.test/a/b'' \<and>
   get_absolute_url std_urllib ''http://seed.test/'' (Some ''HTTP://seed.test/a'') =
     Inr ''http://seed.test/a''"
  by code_simp

text \<open>
  C5, amended. For a seed that begins with \<^verbatim>\<open>http://\<close> or \<^verbatim>\<open>https://\<close> and every
  string \<open>u\<close>: making \<^verbatim>\<open>get_absolute_url(u)\<close> absolute once more changes nothing (when
  the first call raises there is nothing to apply the second to); what the function
  returns begins with \<^verbatim>\<open>http://\<close> or \<^verbatim>\<open>https://\<close> or is \<open>u\<close> itself; and a \<open>u\<close> that
  begins with \<^verbatim>\<open>http://\<close> or \<^verbatim>\<open>https://\<close> is returned unchanged. The library is the
  model of \<^verbatim>\<open>urllib.parse\<close>, with any validators.
\<close>

theorem get_absolute_url_idempotent:
  assumes "is_http b"
  shows "(case get_absolute_url (py_urllib chk) b (Some u) of
            Inl e \<Rightarrow> Inl e
          | Inr r \<Rightarrow> get_absolute_url (py_urllib chk) b (Some r)) =
         get_absolute_url (py_urllib chk) b (Some u) \<and>
         (get_absolute_url (py_urllib chk) b (Some u) = Inr r' \<longrightarrow> is_http r' \<or> r' = u) \<and>
         (is_http u \<longrightarrow> get_absolute_url (py_urllib chk) b (Some u) = Inr u)"
proof (intro conjI impI)
  have shape: "is_http r \<or> r = u"
    if "get_absolute_url (py_urllib chk) b (Some u) = Inr r" for r
  proof (cases "is_http u")
    case True
    with that show ?thesis by (simp add: get_absolute_url_def)
  next
    case False
    with that have "py_urljoin chk b u = Inr r"
      by (simp add: get_absolute_url_def py_urllib_def)
    from py_urljoin_http[OF assms this] show ?thesis .
  qed
  show "(case get_absolute_url (py_urllib chk) b (Some u) of
            Inl e \<Rightarrow> Inl e
          | Inr r \<Rightarrow> get_absolute_url (py_urllib chk) b (Some r)) =
         get_absolute_url (py_urllib chk) b (Some u)"
  proof (cases "get_absolute_url (py_urllib chk) b (Some u)")
    case (Inl e)
    then show ?thesis by simp
  next
    case (Inr r)
    from shape[OF Inr] show ?thesis
    proof
      assume "is_http r"
      with Inr show ?thesis by (simp add: get_absolute_url_def)
    next
      assume "r = u"
      with Inr show ?thesis by simp
    qed
  qed
  show "is_http r' \<or> r' = u" if "get_absolute_url (py_urllib chk) b (Some u) = Inr r'"
    using that by (rule shape)
  show "get_absolute_url (py_urllib chk) b (Some u) = Inr u" if "is_http u"
    using that by (simp add: get_absolute_url_def)
qed

theorem get_absolute_url_idempotent_witness:
  "is_http ''http://seed.test/x/'' \<and>
   get_absolute_url std_urllib ''http://seed.test/x/'' (Some ''../a?p=2'') =
     Inr ''http://seed.test/a?p=2'' \<and>
   get_absolute_url std_urllib ''http://seed.test/x/'' (Some ''http://seed.test/a?p=2'') =
     Inr ''http://seed.test/a?p=2'' \<and>
   get_absolute_url std_urllib ''http://seed.test/x/'' (Some ''HTTP://seed.test/a'') =
     Inr ''http://seed.test/a'' \<and>
   is_http ''http://seed.test/a''"
proof -
  have seed: "is_http ''http://seed.test/x/''" by (simp add: is_http_def startswith_def)
  have once: "get_absolute_url std_urllib ''http://seed.test/x/'' (Some ''../a?p=2'') =
     Inr ''http://seed.test/a?p=2''"
    by code_simp
  have upper: "get_absolute_url std_urllib ''http://seed.test/x/''
                 (Some ''HTTP://seed.test/a'') = Inr ''http://seed.test/a''"
    by code_simp
  have diff: "''http://seed.test/a'' \<noteq> ''HTTP://seed.test/a''" by simp
  from get_absolute_url_idempotent[OF seed, where chk="\<lambda>n. True" and u="''../a?p=2''"] once
  have twice: "get_absolute_url std_urllib ''http://seed.test/x/''
                 (Some ''http://seed.test/a?p=2'') = Inr ''http://seed.test/a?p=2''"
    by (simp add: std_urllib_def)
  from get_absolute_url_idempotent[OF seed, where chk="\<lambda>n. True"
      and u="''HTTP://seed.test/a''" and r'="''http://seed.test/a''"] upper diff
  have "is_http ''http://seed.test/a''" by (simp add: std_urllib_def)
  with seed once twice upper show ?thesis by simp
qed

text \<open>
  C6. With a positive \<^verbatim>\<open>MAX_PAGES\<close> and a visited set that starts empty, the visited
  set never holds more than \<^verbatim>\<open>MAX_PAGES\<close> URLs: not after any number of turns of the
  loop, and not in the state that \<^verbatim>\<open>crawl\<close> returns. With \<^verbatim>\<open>MAX_PAGES\<close> = 0 the
  loop condition no longer looks at the page counter, and there is no bound: on the site
  without end the visited set has \<open>n\<close> elements after \<open>n\<close> turns, for every \<open>n\<close>.
\<close>

theorem visited_within_cap:
  "(0 < max_pages c \<and> visited_urls s = {} \<longrightarrow>
      (\<forall>n. finite (visited_urls (((crawl_iter W L c b) ^^ n) (enter_loop b s))) \<and>
           int (card (visited_urls (((crawl_iter W L c b) ^^ n) (enter_loop b s))))
             \<le> max_pages c) \<and>
      (\<forall>fuel s'. crawl fuel W L c s = Some s' \<longrightarrow>
           int (card (visited_urls s')) \<le> max_pages c)) \<and>
   (max_pages c = 0 \<longrightarrow> loop_condition c s = (current_url s \<noteq> [])) \<and>
   (seed \<noteq> [] \<longrightarrow>
      (\<forall>n. card (visited_urls
                (((crawl_iter (static_world endless_site) L (example_crawler (Some seed) 0)
                     seed) ^^ n) (enter_loop seed initial_state))) = n))"
proof (intro conjI impI allI)
  fix n
  assume a: "0 < max_pages c \<and> visited_urls s = {}"
  then have "cap_inv c (enter_loop b s)" by (simp add: cap_inv_def enter_loop_def)
  then have "cap_inv c (((crawl_iter W L c b) ^^ n) (enter_loop b s))"
    using a by (intro cap_inv_funpow) auto
  then show "finite (visited_urls (((crawl_iter W L c b) ^^ n) (enter_loop b s)))"
    and "int (card (visited_urls (((crawl_iter W L c b) ^^ n) (enter_loop b s))))
           \<le> max_pages c"
    by (simp_all add: cap_inv_def)
next
  fix fuel s'
  assume a: "0 < max_pages c \<and> visited_urls s = {}"
    and r: "crawl fuel W L c s = Some s'"
  from crawl_result[OF r] show "int (card (visited_urls s')) \<le> max_pages c"
  proof
    assume "s' = s"
    with a show ?thesis by simp
  next
    assume "\<exists>b. visited_urls s' =
                  visited_urls (((crawl_iter W L c b) ^^ fuel) (enter_loop b s)) \<and>
                crawl_log s' = crawl_log (((crawl_iter W L c b) ^^ fuel) (enter_loop b s))"
    then obtain b' where v: "visited_urls s' =
        visited_urls (((crawl_iter W L c b') ^^ fuel) (enter_loop b' s))" by blast
    from a have "cap_inv c (enter_loop b' s)" by (simp add: cap_inv_def enter_loop_def)
    then have "cap_inv c (((crawl_iter W L c b') ^^ fuel) (enter_loop b' s))"
      using a by (intro cap_inv_funpow) auto
    with v show ?thesis by (simp add: cap_inv_def)
  qed
next
  assume "max_pages c = 0"
  then show "loop_condition c s = (current_url s \<noteq> [])"
    by (simp add: loop_condition_def)
next
  fix n
  assume "seed \<noteq> []"
  then show "card (visited_urls
                (((crawl_iter (static_world endless_site) L (example_crawler (Some seed) 0)
                     seed) ^^ n) (enter_loop seed initial_state))) = n"
    by (intro endless_card) (simp_all add: initial_state_def)
qed

theorem visited_within_cap_witness:
  "0 < max_pages (example_crawler (Some ''http://seed.test/'') 2) \<and>
   visited_urls initial_state = {} \<and>
   map_option crawl_log
     (crawl 5 (static_world gallery_site) std_urllib
        (example_crawler (Some ''http://seed.test/'') 2) initial_state) =
     Some [''http://seed.test/'', ''http://seed.test/2''] \<and>
   map_option (\<lambda>s'. int (card (visited_urls s')) \<le> 2)
     (crawl 5 (static_world gallery_site) std_urllib
        (example_crawler (Some ''http://seed.test/'') 2) initial_state) = Some True \<and>
   max_pages (example_crawler (Some ''http://seed.test/'') 0) = 0 \<and>
   loop_condition (example_crawler (Some ''http://seed.test/'') 0)
     (enter_loop ''http://seed.test/'' initial_state) \<and>
   ''http://seed.test/'' \<noteq> [] \<and>
   card (visited_urls
     (((crawl_iter (static_world endless_site) std_urllib
          (example_crawler (Some ''http://seed.test/'') 0) ''http://seed.test/'') ^^ 7)
        (enter_loop ''http://seed.test/'' initial_state))) = 7"
proof -
  let ?c2 = "example_crawler (Some ''http://seed.test/'') 2"
  let ?c0 = "example_crawler (Some ''http://seed.test/'') 0"
  let ?W = "static_world gallery_site"
  have run: "map_option crawl_log (crawl 5 ?W std_urllib ?c2 initial_state) =
     Some [''http://seed.test/'', ''http://seed.test/2'']"
    by (simp add: crawl_defs walk_defs action_defs static_defs gallery_site_def
        example_crawler_def initial_state_def new_driver_def eval_nat_numeral Let_def
        add_if_valid_eval gallery_scope gallery_absolute)
  then obtain s' where s': "crawl 5 ?W std_urllib ?c2 initial_state = Some s'" by auto
  have cap: "0 < max_pages ?c2 \<and> visited_urls initial_state = {}"
    by (simp add: example_crawler_def initial_state_def)
  have two: "max_pages ?c2 = 2" by (simp add: example_crawler_def)
  from visited_within_cap[where c="?c2" and s=initial_state and W="?W" and L=std_urllib] cap
  have "\<forall>fuel s'. crawl fuel ?W std_urllib ?c2 initial_state = Some s' \<longrightarrow>
          int (card (visited_urls s')) \<le> max_pages ?c2"
    by blast
  with s' two have bound: "int (card (visited_urls s')) \<le> 2" by simp
  have zero: "max_pages ?c0 = 0" by (simp add: example_crawler_def)
  have cur: "current_url (enter_loop ''http://seed.test/'' initial_state) \<noteq> []"
    by (simp add: enter_loop_def)
  from visited_within_cap[where c="?c0" and s="enter_loop ''http://seed.test/'' initial_state"]
    zero cur
  have cond: "loop_condition ?c0 (enter_loop ''http://seed.test/'' initial_state)" by blast
  have seed: "''http://seed.test/'' \<noteq> []" by simp
  from visited_within_cap[where seed="''http://seed.test/''" and L=std_urllib] seed
  have "\<forall>n. card (visited_urls
     (((crawl_iter (static_world endless_site) std_urllib ?c0 ''http://seed.test/'') ^^ n)
        (enter_loop ''http://seed.test/'' initial_state))) = n"
    by blast
  then have endless: "card (visited_urls
     (((crawl_iter (static_world endless_site) std_urllib ?c0 ''http://seed.test/'') ^^ 7)
        (enter_loop ''http://seed.test/'' initial_state))) = 7"
    by blast
  from cap run s' bound zero cond endless show ?thesis by simp
qed

text \<open>
  C7. No URL is crawled twice. In a run that starts with an empty visited set, the
  sequence of pages handed to the harvester (the log of crawled pages) has no repetition and
  lists exactly the visited set, after any number of turns and in the state that
  \<^verbatim>\<open>crawl\<close> returns. The link scan only chooses a link that is not in the visited set;
  a cursor already in the visited set ends the loop and nothing is harvested; a cursor not
  yet in it is added to the set and to the log.
\<close>

theorem no_page_crawled_twice:
  "(visited_urls s = {} \<and> crawl_log s = [] \<longrightarrow>
      (\<forall>n. distinct (crawl_log (((crawl_iter W L c b) ^^ n) (enter_loop b s))) \<and>
           set (crawl_log (((crawl_iter W L c b) ^^ n) (enter_loop b s))) =
             visited_urls (((crawl_iter W L c b) ^^ n) (enter_loop b s))) \<and>
      (\<forall>fuel s'. crawl fuel W L c s = Some s' \<longrightarrow>
           distinct (crawl_log s') \<and> set (crawl_log s') = visited_urls s')) \<and>
   (first_unvisited W V links = Some l \<longrightarrow> l \<notin> V) \<and>
   (status s = Running \<and> loop_condition c s \<and> current_url s \<in> visited_urls s \<longrightarrow>
      crawl_iter W L c b s = s\<lparr>status := LoopDone\<rparr>) \<and>
   (status s = Running \<and> loop_condition c s \<and> current_url s \<notin> visited_urls s \<longrightarrow>
      crawl_log (crawl_iter W L c b s) = crawl_log s @ [current_url s] \<and>
      visited_urls (crawl_iter W L c b s) = insert (current_url s) (visited_urls s))"
proof (intro conjI impI allI)
  fix n
  assume a: "visited_urls s = {} \<and> crawl_log s = []"
  then have "log_inv (enter_loop b s)" by (simp add: log_inv_def enter_loop_def)
  then have "log_inv (((crawl_iter W L c b) ^^ n) (enter_loop b s))" by (rule log_inv_funpow)
  then show "distinct (crawl_log (((crawl_iter W L c b) ^^ n) (enter_loop b s)))"
    and "set (crawl_log (((crawl_iter W L c b) ^^ n) (enter_loop b s))) =
           visited_urls (((crawl_iter W L c b) ^^ n) (enter_loop b s))"
    by (simp_all add: log_inv_def)
next
  fix fuel s'
  assume a: "visited_urls s = {} \<and> crawl_log s = []"
    and r: "crawl fuel W L c s = Some s'"
  have "log_inv s'"
    using crawl_result[OF r]
  proof
    assume "s' = s"
    with a show ?thesis by (simp add: log_inv_def)
  next
    assume "\<exists>b. visited_urls s' =
                  visited_urls (((crawl_iter W L c b) ^^ fuel) (enter_loop b s)) \<and>
                crawl_log s' = crawl_log (((crawl_iter W L c b) ^^ fuel) (enter_loop b s))"
    then obtain b' where v: "visited_urls s' =
        visited_urls (((crawl_iter W L c b') ^^ fuel) (enter_loop b' s))"
      and l: "crawl_log s' = crawl_log (((crawl_iter W L c b') ^^ fuel) (enter_loop b' s))"
      by blast
    from a have "log_inv (enter_loop b' s)" by (simp add: log_inv_def enter_loop_def)
    then have "log_inv (((crawl_iter W L c b') ^^ fuel) (enter_loop b' s))"
      by (rule log_inv_funpow)
    with v l show ?thesis by (simp add: log_inv_def)
  qed
  then show "distinct (crawl_log s')" and "set (crawl_log s') = visited_urls s'"
    by (simp_all add: log_inv_def)
next
  assume "first_unvisited W V links = Some l"
  from first_unvisited_new[OF this] show "l \<notin> V" by simp
next
  assume "status s = Running \<and> loop_condition c s \<and> current_url s \<in> visited_urls s"
  then show "crawl_iter W L c b s = s\<lparr>status := LoopDone\<rparr>"
    by (intro crawl_iter_stop) auto
next
  assume a: "status s = Running \<and> loop_condition c s \<and> current_url s \<notin> visited_urls s"
  then show "crawl_log (crawl_iter W L c b s) = crawl_log s @ [current_url s]"
    by (intro crawl_iter_visit(2)) auto
  from a show "visited_urls (crawl_iter W L c b s) = insert (current_url s) (visited_urls s)"
    by (intro crawl_iter_visit(1)) auto
qed

theorem no_page_crawled_twice_witness:
  "visited_urls initial_state = {} \<and> crawl_log initial_state = [] \<and>
   map_option crawl_log
     (crawl 5 (static_world gallery_site) std_urllib
        (example_crawler (Some ''http://seed.test/'') 10) initial_state) =
     Some [''http://seed.test/'', ''http://seed.test/2'', ''http://seed.test/3''] \<and>
   map_option (\<lambda>s'. set (crawl_log s') = visited_urls s')
     (crawl 5 (static_world gallery_site) std_urllib
        (example_crawler (Some ''http://seed.test/'') 10) initial_state) = Some True \<and>
   first_unvisited (static_world gallery_site) {''http://seed.test/'', ''http://seed.test/2''}
     [''http://seed.test/'', ''http://seed.test/3''] = Some ''http://seed.test/3'' \<and>
   ''http://seed.test/3'' \<notin> {''http://seed.test/'', ''http://seed.test/2''} \<and>
   status (crawl_iter (static_world gallery_site) std_urllib
      (example_crawler (Some ''http://seed.test/'') 10) ''http://seed.test/''
      ((enter_loop ''http://seed.test/'' initial_state)
         \<lparr>visited_urls := {''http://seed.test/''}\<rparr>)) = LoopDone \<and>
   crawl_log (crawl_iter (static_world gallery_site) std_urllib
      (example_crawler (Some ''http://seed.test/'') 10) ''http://seed.test/''
      (enter_loop ''http://seed.test/'' initial_state)) = [''http://seed.test/'']"
proof -
  let ?c = "example_crawler (Some ''http://seed.test/'') 10"
  let ?W = "static_world gallery_site"
  let ?s0 = "enter_loop ''http://seed.test/'' initial_state"
  let ?s1 = "?s0\<lparr>visited_urls := {''http://seed.test/''}\<rparr>"
  have run: "map_option crawl_log (crawl 5 ?W std_urllib ?c initial_state) =
     Some [''http://seed.test/'', ''http://seed.test/2'', ''http://seed.test/3'']"
    by (simp add: crawl_defs walk_defs action_defs static_defs gallery_site_def
        example_crawler_def initial_state_def new_driver_def eval_nat_numeral Let_def
        add_if_valid_eval gallery_scope gallery_absolute)
  then obtain s' where s': "crawl 5 ?W std_urllib ?c initial_state = Some s'" by auto
  have init: "visited_urls initial_state = {} \<and> crawl_log initial_state = []"
    by (simp add: initial_state_def)
  from no_page_crawled_twice[where s=initial_state and W="?W" and L=std_urllib and c="?c"] init
  have "\<forall>fuel s'. crawl fuel ?W std_urllib ?c initial_state = Some s' \<longrightarrow>
          distinct (crawl_log s') \<and> set (crawl_log s') = visited_urls s'"
    by blast
  with s' have same: "set (crawl_log s') = visited_urls s'" by blast
  have pick: "first_unvisited ?W {''http://seed.test/'', ''http://seed.test/2''}
     [''http://seed.test/'', ''http://seed.test/3''] = Some ''http://seed.test/3''"
    by (simp add: first_unvisited_def static_world_def)
  from no_page_crawled_twice[where W="?W"
      and V="{''http://seed.test/'', ''http://seed.test/2''}"
      and links="[''http://seed.test/'', ''http://seed.test/3'']"
      and l="''http://seed.test/3''"] pick
  have new: "''http://seed.test/3'' \<notin> {''http://seed.test/'', ''http://seed.test/2''}"
    by blast
  have seen: "status ?s1 = Running \<and> loop_condition ?c ?s1 \<and>
              current_url ?s1 \<in> visited_urls ?s1"
    by (simp add: enter_loop_def loop_condition_def example_crawler_def)
  from no_page_crawled_twice[where s="?s1" and W="?W" and L=std_urllib and c="?c"
      and b="''http://seed.test/''"] seen
  have "crawl_iter ?W std_urllib ?c ''http://seed.test/'' ?s1 = ?s1\<lparr>status := LoopDone\<rparr>"
    by blast
  then have stop: "status (crawl_iter ?W std_urllib ?c ''http://seed.test/'' ?s1) = LoopDone"
    by simp
  have fresh: "status ?s0 = Running \<and> loop_condition ?c ?s0 \<and>
               current_url ?s0 \<notin> visited_urls ?s0"
    by (simp add: enter_loop_def loop_condition_def example_crawler_def initial_state_def)
  from no_page_crawled_twice[where s="?s0" and W="?W" and L=std_urllib and c="?c"
      and b="''http://seed.test/''"] fresh
  have "crawl_log (crawl_iter ?W std_urllib ?c ''http://seed.test/'' ?s0) =
        crawl_log ?s0 @ [current_url ?s0]"
    by blast
  then have first: "crawl_log (crawl_iter ?W std_urllib ?c ''http://seed.test/'' ?s0) =
                    [''http://seed.test/'']"
    by (simp add: enter_loop_def initial_state_def)
  from init run s' same pick new stop first show ?thesis by simp
qed



text \<open>
  C9. Claim: with an empty image set the report step writes nothing, so that a report
  file exists iff at least one image was discovered. The first part holds; the second
  fails as stated: the report is written after the loop inside the \<^verbatim>\<open>try\<close> block, and
  a run that leaves the loop by an exception or an interrupt writes none, whatever it has
  found. In \<open>lost_url_world\<close> the seed page gives two images, then
  \<^verbatim>\<open>driver.current_url\<close> raises in \<^verbatim>\<open>go_to_next_page\<close>: the run ends with two images
  and no report.
\<close>

theorem images_without_report:
  "map_option image_urls
     (crawl 2 lost_url_world std_urllib (example_crawler (Some ''http://seed.test/'') 10)
        initial_state) =
     Some {''http://seed.test/img/b.png'', ''http://seed.test/img/a.png''} \<and>
   map_option (report_file (example_crawler (Some ''http://seed.test/'') 10))
     (crawl 2 lost_url_world std_urllib (example_crawler (Some ''http://seed.test/'') 10)
        initial_state) = Some None \<and>
   map_option status
     (crawl 2 lost_url_world std_urllib (example_crawler (Some ''http://seed.test/'') 10)
        initial_state) = Some (Raised WebDriverException)"
  by (simp add: crawl_defs walk_defs action_defs static_defs gallery_site_def
      lost_url_world_def report_file_def report_path_def
      example_crawler_def initial_state_def new_driver_def eval_nat_numeral Let_def
      add_if_valid_eval gallery_scope gallery_absolute)

text \<open>
  C9, amended. With an empty image set \<^verbatim>\<open>generate_html_report\<close> changes nothing: it
  writes no file. After a run that started without a report file, a report file exists
  iff the seed was set, the loop ended by itself (no exception and no interrupt left the
  \<^verbatim>\<open>try\<close> block) and at least one image was discovered.
\<close>

theorem report_iff_loop_done_with_images:
  "(image_urls s = {} \<longrightarrow> generate_html_report W c s = s) \<and>
   (crawl fuel W L c s = Some s' \<and> report_file c s = None \<longrightarrow>
      (report_file c s' \<noteq> None) =
      (truthy (base_url c) \<and> status s' = LoopDone \<and> image_urls s' \<noteq> {}))"
proof (intro conjI impI)
  assume "image_urls s = {}"
  then show "generate_html_report W c s = s" by (simp add: generate_html_report_def)
next
  assume a: "crawl fuel W L c s = Some s' \<and> report_file c s = None"
  show "(report_file c s' \<noteq> None) =
        (truthy (base_url c) \<and> status s' = LoopDone \<and> image_urls s' \<noteq> {})"
  proof (cases "truthy (base_url c)")
    case False
    with a have "s' = s" by (auto simp: crawl_def truthy_def split: option.splits if_splits)
    with a False show ?thesis by simp
  next
    case True
    then obtain b where b: "base_url c = Some b" "b \<noteq> []"
      by (auto simp: truthy_def split: option.splits)
    let ?t = "((crawl_iter W L c b) ^^ fuel) (enter_loop b s)"
    from a b have s': "s' = after_loop W c ?t"
      by (auto simp: crawl_def split: if_splits)
    have "files ?t = files s" by (simp add: funpow_files enter_loop_def)
    with a have "files ?t (report_path c) = None" by (simp add: report_file_def)
    with s' True show ?thesis by (simp add: report_file_def after_loop_report)
  qed
qed

theorem report_iff_loop_done_with_images_witness:
  "image_urls initial_state = {} \<and>
   generate_html_report (static_world gallery_site) (example_crawler None 10) initial_state =
     initial_state \<and>
   report_file (example_crawler (Some ''http://seed.test/'') 10) initial_state = None \<and>
   truthy (base_url (example_crawler (Some ''http://seed.test/'') 10)) \<and>
   map_option status
     (crawl 5 (static_world gallery_site) std_urllib
        (example_crawler (Some ''http://seed.test/'') 10) initial_state) = Some LoopDone \<and>
   map_option (report_file (example_crawler (Some ''http://seed.test/'') 10))
     (crawl 5 (static_world gallery_site) std_urllib
        (example_crawler (Some ''http://seed.test/'') 10) initial_state) =
     Some (Some ''<!DOCTYPE html>'') \<and>
   map_option (\<lambda>s. image_urls s \<noteq> {})
     (crawl 5 (static_world gallery_site) std_urllib
        (example_crawler (Some ''http://seed.test/'') 10) initial_state) = Some True"
proof -
  let ?c = "example_crawler (Some ''http://seed.test/'') 10"
  let ?W = "static_world gallery_site"
  have none: "image_urls initial_state = {}" by (simp add: initial_state_def)
  from report_iff_loop_done_with_images[where s=initial_state and W="?W"
      and c="example_crawler None 10"] none
  have unchanged: "generate_html_report ?W (example_crawler None 10) initial_state =
                   initial_state"
    by blast
  have fresh: "report_file ?c initial_state = None"
    by (simp add: report_file_def initial_state_def)
  have seed: "truthy (base_url ?c)" by (simp add: truthy_def example_crawler_def)
  have run: "map_option (\<lambda>s. (status s, report_file ?c s))
               (crawl 5 ?W std_urllib ?c initial_state) =
             Some (LoopDone, Some ''<!DOCTYPE html>'')"
    by (simp add: crawl_defs walk_defs action_defs static_defs gallery_site_def
        report_file_def report_path_def
        example_crawler_def initial_state_def new_driver_def eval_nat_numeral Let_def
        add_if_valid_eval gallery_scope gallery_absolute)
  then obtain s' where s': "crawl 5 ?W std_urllib ?c initial_state = Some s'"
    and st: "status s' = LoopDone" and doc: "report_file ?c s' = Some ''<!DOCTYPE html>''"
    by auto
  from report_iff_loop_done_with_images[where s=initial_state and W="?W" and L=std_urllib
      and c="?c" and fuel=5 and s'=s'] s' fresh
  have "(report_file ?c s' \<noteq> None) =
        (truthy (base_url ?c) \<and> status s' = LoopDone \<and> image_urls s' \<noteq> {})"
    by blast
  with doc have found: "image_urls s' \<noteq> {}" by simp
  from none unchanged fresh seed s' st doc found show ?thesis by simp
qed

text \<open>
  C10. When \<^verbatim>\<open>MAX_PAGES\<close> or \<^verbatim>\<open>PAGE_LOAD_TIMEOUT\<close> is set to a string that is not an
  integer literal (\<^verbatim>\<open>int\<close> raises \<^verbatim>\<open>ValueError\<close> on it), \<^verbatim>\<open>__init__\<close> raises
  \<^verbatim>\<open>ValueError\<close>; no directory has been made, no browser has been started, and no
  crawler exists that could visit a page: no default is put in the place of the value.
  This holds whatever the builtin \<^verbatim>\<open>int\<close> accepts.
\<close>

theorem bad_integer_setting_aborts_init:
  "(getenv E ''MAX_PAGES'' = Some v \<or> getenv E ''PAGE_LOAD_TIMEOUT'' = Some v) \<and>
   int_of_str E v = None \<Longrightarrow>
   init E = (\<lparr>made_dirs = [], chrome_starts = 0\<rparr>, Inl ValueError)"
  by (auto simp: init_def getenv_int_def no_effects_def split: option.splits sum.splits)

theorem bad_integer_setting_aborts_init_witness:
  "int_literal ''ten'' = None \<and> int_literal ''3.5'' = None \<and>
   init (example_launcher [''START_URL'' \<mapsto> ''http://seed.test/'', ''MAX_PAGES'' \<mapsto> ''ten'']) =
     (\<lparr>made_dirs = [], chrome_starts = 0\<rparr>, Inl ValueError) \<and>
   init (example_launcher [''PAGE_LOAD_TIMEOUT'' \<mapsto> ''3.5'']) =
     (\<lparr>made_dirs = [], chrome_starts = 0\<rparr>, Inl ValueError) \<and>
   init (example_launcher [''START_URL'' \<mapsto> ''http://seed.test/'', ''MAX_PAGES'' \<mapsto> '' 1_0 '']) =
     (\<lparr>made_dirs = [''RESULT'', ''RESULT/20240101_000000''], chrome_starts = 1\<rparr>,
      Inr (example_crawler (Some ''http://seed.test/'') 10))"
proof -
  have ten: "int_literal ''ten'' = None"
    by (simp add: int_literal_def py_space_def is_digit_def max_str_digits_def)
  have frac: "int_literal ''3.5'' = None"
    by (simp add: int_literal_def py_space_def is_digit_def max_str_digits_def)
  have good: "int_literal '' 1_0 '' = Some 10"
    by (simp add: int_literal_def py_space_def is_digit_def max_str_digits_def)
  have ok: "init (example_launcher
              [''START_URL'' \<mapsto> ''http://seed.test/'', ''MAX_PAGES'' \<mapsto> '' 1_0 '']) =
     (\<lparr>made_dirs = [''RESULT'', ''RESULT/20240101_000000''], chrome_starts = 1\<rparr>,
      Inr (example_crawler (Some ''http://seed.test/'') 10))"
    by (simp add: init_def getenv_int_def good example_launcher_def
        setup_driver_def example_crawler_def)
  from bad_integer_setting_aborts_init[where v="''ten''" and
      E="example_launcher [''START_URL'' \<mapsto> ''http://seed.test/'', ''MAX_PAGES'' \<mapsto> ''ten'']"]
    bad_integer_setting_aborts_init[where v="''3.5''" and
      E="example_launcher [''PAGE_LOAD_TIMEOUT'' \<mapsto> ''3.5'']"]
    ten frac ok
  show ?thesis by (simp add: example_launcher_def)
qed

end
